theory Spec2Isabelle
  imports Main "HOL-Library.AList" "HOL-Library.Sublist"
begin

section \<open>SubscriptionVault: the object store\<close>

text \<open>
  The vault of \<^verbatim>\<open>src/index.js\<close> keeps its subscriptions in a graph of plain
  JavaScript objects. A node may carry three properties, each of which may be absent:
  \<^verbatim>\<open>children\<close> (an object used as a dictionary from path segment to node),
  \<^verbatim>\<open>subscriptions\<close> (an array of handles) and \<^verbatim>\<open>parent\<close> (a reference to
  the node that created it). Since \<^verbatim>\<open>remove\<close> mutates a parent through the
  \<^verbatim>\<open>parent\<close> reference of its child, objects live in an explicit store: a
  reference is an address, \<open>cells\<close> maps an address to the object stored there and
  \<open>fresh\<close> is the next unused address. An absent property is \<open>None\<close>. A
  \<^verbatim>\<open>children\<close> dictionary is the list of its own properties in insertion order.

  The store holds the objects the vault and its caller create. The built-in objects
  are not in it: a dictionary read \<^verbatim>\<open>children[pathElement]\<close> and the three
  property reads on a node are reads of own properties. In the code they also see
  what \<^verbatim>\<open>Object.prototype\<close> provides, so the model describes the code for path
  segments that are none of the property names of \<^verbatim>\<open>Object.prototype\<close>
  (\<open>inherited_names\<close> and \<open>plain_topic\<close> below), in a realm whose
  \<^verbatim>\<open>Object.prototype\<close> has no property \<^verbatim>\<open>children\<close>, \<^verbatim>\<open>subscriptions\<close> or
  \<^verbatim>\<open>parent\<close>. Calls with plain topics leave \<^verbatim>\<open>Object.prototype\<close> alone; a
  call such as \<^verbatim>\<open>add('__proto__', s)\<close> writes to it and is outside the model.
\<close>

type_synonym ref = nat

record 's node =
  children :: "(string \<times> ref) list option"
  subscriptions :: "'s list option"
  parent :: "ref option"

datatype 's event =
    TopicAdded string
  | TopicRemoved string
  | ConsoleError string 's

text \<open>
  The two lifecycle callbacks and \<^verbatim>\<open>console.error\<close> are the vault's only effects
  on the outside; each call is recorded, in order, in \<open>events\<close>.
\<close>

record 's vault =
  cells :: "ref \<Rightarrow> 's node"
  fresh :: ref
  subscriptionTree :: ref
  events :: "'s event list"

datatype error = TypeError

text \<open>
  An operation either returns or throws; in both cases the store keeps every mutation
  made so far.
\<close>

datatype 'a completion = Normal 'a | Throw error 'a

fun state_of :: "'a completion \<Rightarrow> 'a" where
  "state_of (Normal x) = x"
| "state_of (Throw e x) = x"

definition empty_object :: "'s node" where
  "empty_object = \<lparr>children = None, subscriptions = None, parent = None\<rparr>"

definition alloc :: "'s node \<Rightarrow> 's vault \<Rightarrow> ref \<times> 's vault" where
  "alloc obj v = (fresh v, v\<lparr>cells := (cells v)(fresh v := obj), fresh := Suc (fresh v)\<rparr>)"

definition set_children :: "ref \<Rightarrow> (string \<times> ref) list \<Rightarrow> 's vault \<Rightarrow> 's vault" where
  "set_children a cs v = v\<lparr>cells := (cells v)(a := (cells v a)\<lparr>children := Some cs\<rparr>)\<rparr>"

definition set_subscriptions :: "ref \<Rightarrow> 's list \<Rightarrow> 's vault \<Rightarrow> 's vault" where
  "set_subscriptions a l v = v\<lparr>cells := (cells v)(a := (cells v a)\<lparr>subscriptions := Some l\<rparr>)\<rparr>"

definition emit :: "'s event \<Rightarrow> 's vault \<Rightarrow> 's vault" where
  "emit e v = v\<lparr>events := events v @ [e]\<rparr>"

text \<open>\<^verbatim>\<open>node.children[pathElement]\<close> read through the destructuring default
  \<^verbatim>\<open>children: {...} = {}\<close>: an absent dictionary has no entry. The entry is an
  own property of the dictionary, which for a plain segment (\<open>plain_topic\<close> below) is
  all that the code's read can find.\<close>

definition child_of :: "'s node \<Rightarrow> string \<Rightarrow> ref option" where
  "child_of nd pathElement =
     (case children nd of None \<Rightarrow> None | Some cs \<Rightarrow> map_of cs pathElement)"

text \<open>\<^verbatim>\<open>subscriptions = []\<close>: an absent array reads as the empty one.\<close>

definition subscriptions_or_empty :: "'s node \<Rightarrow> 's list" where
  "subscriptions_or_empty nd = (case subscriptions nd of None \<Rightarrow> [] | Some l \<Rightarrow> l)"

definition children_or_empty :: "'s node \<Rightarrow> (string \<times> ref) list" where
  "children_or_empty nd = (case children nd of None \<Rightarrow> [] | Some cs \<Rightarrow> cs)"

section \<open>Tokenizer\<close>

text \<open>\<^verbatim>\<open>topic.split('/')\<close>: no segment is filtered, the result is never empty.\<close>

fun split :: "char \<Rightarrow> string \<Rightarrow> string list" where
  "split d [] = [[]]"
| "split d (c # cs) =
     (if c = d then [] # split d cs
      else (case split d cs of [] \<Rightarrow> [[c]] | w # ws \<Rightarrow> (c # w) # ws))"

definition topicToPath :: "string \<Rightarrow> string list" where
  "topicToPath topic = split CHR ''/'' topic"

text \<open>
  The string-keyed properties of \<^verbatim>\<open>Object.prototype\<close>. A topic is plain when none
  of its segments is one of them: then every \<^verbatim>\<open>children[pathElement]\<close> of the
  code is the read of an own property, or \<^verbatim>\<open>undefined\<close>.
\<close>

definition inherited_names :: "string list" where
  "inherited_names =
     [''constructor'', ''__defineGetter__'', ''__defineSetter__'', ''hasOwnProperty'',
      ''__lookupGetter__'', ''__lookupSetter__'', ''isPrototypeOf'',
      ''propertyIsEnumerable'', ''toString'', ''valueOf'', ''__proto__'',
      ''toLocaleString'']"

definition plain_topic :: "string \<Rightarrow> bool" where
  "plain_topic topic = list_all (\<lambda>pathElement. pathElement \<notin> set inherited_names) (topicToPath topic)"

section \<open>Traversal\<close>

text \<open>
  \<^verbatim>\<open>traverse\<close> (lines 230-247). The \<^verbatim>\<open>forEach\<close> loop is the recursion over the
  path; \<open>node\<close> is \<open>None\<close> once it is \<^verbatim>\<open>undefined\<close>, and then every later
  iteration returns at once. After the callback the loop reads \<^verbatim>\<open>node.parent\<close>
  or \<^verbatim>\<open>node.children[pathElement]\<close>; the latter throws a TypeError when
  \<^verbatim>\<open>node.children\<close> is \<^verbatim>\<open>undefined\<close>. The callback works on the store and
  on the variables of its closure, the second component of the state.
\<close>

fun traverse_loop ::
  "('s vault \<times> 'c \<Rightarrow> ref \<Rightarrow> string \<Rightarrow> nat \<Rightarrow> ('s vault \<times> 'c) completion) \<Rightarrow> bool \<Rightarrow>
   nat \<Rightarrow> string list \<Rightarrow> ref option \<Rightarrow> 's vault \<times> 'c \<Rightarrow> ('s vault \<times> 'c) completion" where
  "traverse_loop callback reverseDirection index [] node st = Normal st"
| "traverse_loop callback reverseDirection index (pathElement # rest) node st =
     (case node of
        None \<Rightarrow> traverse_loop callback reverseDirection (Suc index) rest None st
      | Some n \<Rightarrow>
          (case callback st n pathElement index of
             Throw e st' \<Rightarrow> Throw e st'
           | Normal st' \<Rightarrow>
               if reverseDirection
               then traverse_loop callback reverseDirection (Suc index) rest
                      (parent (cells (fst st') n)) st'
               else (case children (cells (fst st') n) of
                       None \<Rightarrow> Throw TypeError st'
                     | Some cs \<Rightarrow>
                         traverse_loop callback reverseDirection (Suc index) rest
                           (map_of cs pathElement) st')))"

definition traverse ::
  "string list \<Rightarrow> ('s vault \<times> 'c \<Rightarrow> ref \<Rightarrow> string \<Rightarrow> nat \<Rightarrow> ('s vault \<times> 'c) completion) \<Rightarrow>
   ref \<Rightarrow> bool \<Rightarrow> 's vault \<times> 'c \<Rightarrow> ('s vault \<times> 'c) completion" where
  "traverse topicPath callback initialNode reverseDirection st =
     traverse_loop callback reverseDirection 0 topicPath (Some initialNode) st"

section \<open>Construction and reset\<close>

text \<open>
  The constructor destructures three options of its configuration object; the two
  callbacks are the recorded events, so only \<^verbatim>\<open>subscriptionTree\<close> is read here. A
  configuration is the list of its options that hold a tree, each with the reference
  passed; any other option name is ignored. The second argument is the store at the
  time of the call, which holds whatever tree the caller has built. Without
  \<^verbatim>\<open>subscriptionTree\<close> the default \<^verbatim>\<open>{}\<close> is allocated. \<open>new_vault\<close> is
  \<^verbatim>\<open>new SubscriptionVault({})\<close> in a store with no object yet.
\<close>

definition constructor :: "(string \<times> ref) list \<Rightarrow> 's vault \<Rightarrow> 's vault" where
  "constructor config v =
     (case map_of config ''subscriptionTree'' of
        Some t \<Rightarrow> v\<lparr>subscriptionTree := t\<rparr>
      | None \<Rightarrow> (let (t, v') = alloc empty_object v in v'\<lparr>subscriptionTree := t\<rparr>))"

definition empty_store :: "'s vault" where
  "empty_store = \<lparr>cells = (\<lambda>_. empty_object), fresh = 0, subscriptionTree = 0, events = []\<rparr>"

definition new_vault :: "'s vault" where
  "new_vault = constructor [] empty_store"

definition reset :: "'s vault \<Rightarrow> 's vault" where
  "reset v = (let (t, v') = alloc empty_object v in v'\<lparr>subscriptionTree := t\<rparr>)"

section \<open>add\<close>

text \<open>
  The callback of \<^verbatim>\<open>add\<close> (lines 62-90). The child is the entry of the node's
  dictionary or, by the destructuring default, a new object \<^verbatim>\<open>{parent: node}\<close>;
  \<^verbatim>\<open>childSubscriptions\<close> is read from the entry and is empty when there is none. The
  node gets a dictionary if it has none, the child is stored under the segment, and at
  the last segment the handle is appended and \<^verbatim>\<open>onTopicAdded\<close> is called if the
  array read before was empty.
\<close>

definition add_callback ::
  "string \<Rightarrow> 's \<Rightarrow> string list \<Rightarrow> 's vault \<times> unit \<Rightarrow> ref \<Rightarrow> string \<Rightarrow> nat \<Rightarrow>
   ('s vault \<times> unit) completion" where
  "add_callback topic subscription topicPath st node pathElement index =
     (let v = fst st;
          existing = child_of (cells v node) pathElement;
          (child, v1) = (case existing of
                           Some c \<Rightarrow> (c, v)
                         | None \<Rightarrow> alloc \<lparr>children = None, subscriptions = None, parent = Some node\<rparr> v);
          childSubscriptions = (case existing of
                                  None \<Rightarrow> []
                                | Some c \<Rightarrow> subscriptions_or_empty (cells v c));
          isLastPathElement = (Suc index = length topicPath);
          v2 = (if children (cells v1 node) = None then set_children node [] v1 else v1);
          v3 = set_children node (AList.update pathElement child (children_or_empty (cells v2 node))) v2
      in if isLastPathElement
         then (let v4 = set_subscriptions child (childSubscriptions @ [subscription]) v3;
                   v5 = (if childSubscriptions = [] then emit (TopicAdded topic) v4 else v4)
               in Normal (v5, ()))
         else Normal (v3, ()))"

definition add :: "string \<Rightarrow> 's \<Rightarrow> 's vault \<Rightarrow> 's vault completion" where
  "add topic subscription v =
     (let topicPath = topicToPath topic
      in case traverse topicPath (add_callback topic subscription topicPath)
                (subscriptionTree v) False (v, ()) of
           Normal st \<Rightarrow> Normal (fst st)
         | Throw e st \<Rightarrow> Throw e (fst st))"

section \<open>remove\<close>

text \<open>
  \<^verbatim>\<open>remove\<close> compares handles twice, and not in the same way:
  \<^verbatim>\<open>childSubscriptions.includes(subscription)\<close> (line 119) compares with
  SameValueZero, the filter \<^verbatim>\<open>sub !== subscription\<close> (line 120) with strict
  equality. The two agree on every JavaScript value but \<^verbatim>\<open>NaN\<close>, which
  SameValueZero finds equal to itself and strict equality does not. A handle that
  \<^verbatim>\<open>remove\<close> receives is therefore \<^verbatim>\<open>NaN\<close> or any other value (the two zeros
  count as one value: both comparisons identify them).
\<close>

datatype 's handle = NaN | Value 's

definition sameValueZero :: "'s handle \<Rightarrow> 's handle \<Rightarrow> bool" where
  "sameValueZero x y = (x = y)"

definition strictEquals :: "'s handle \<Rightarrow> 's handle \<Rightarrow> bool" where
  "strictEquals x y = (x = y \<and> x \<noteq> NaN)"

text \<open>The closure variable \<^verbatim>\<open>nextNode\<close> is the second component of the state.\<close>

definition remove_callback ::
  "string \<Rightarrow> 's handle \<Rightarrow> string list \<Rightarrow> 's handle vault \<times> ref option \<Rightarrow> ref \<Rightarrow> string \<Rightarrow> nat \<Rightarrow>
   ('s handle vault \<times> ref option) completion" where
  "remove_callback topic subscription topicPath st node pathElement index =
     (let v = fst st;
          existing = child_of (cells v node) pathElement;
          (child, v1) = (case existing of
                           Some c \<Rightarrow> (c, v)
                         | None \<Rightarrow> alloc empty_object v);
          childSubscriptions = (case existing of
                                  None \<Rightarrow> []
                                | Some c \<Rightarrow> subscriptions_or_empty (cells v c));
          isLastPathElement = (Suc index = length topicPath);
          v4 = (if isLastPathElement
                then (let v2 = (if list_ex (\<lambda>sub. sameValueZero sub subscription) childSubscriptions
                                then set_subscriptions child
                                       (filter (\<lambda>sub. \<not> strictEquals sub subscription) childSubscriptions) v1
                                else emit (ConsoleError topic subscription) v1);
                          v3 = (if subscriptions (cells v2 child) = Some []
                                then emit (TopicRemoved topic) v2 else v2)
                      in v3)
                else v1)
      in Normal (v4, Some child))"

text \<open>The pruning callback of the upward pass (lines 141-153). The default
  \<^verbatim>\<open>parent = {children: {}}\<close> makes the \<^verbatim>\<open>delete\<close> act on a temporary object
  when the node has no parent; with a parent whose \<^verbatim>\<open>children\<close> is absent the
  \<^verbatim>\<open>delete\<close> throws.\<close>

definition prune_callback ::
  "'s vault \<times> unit \<Rightarrow> ref \<Rightarrow> string \<Rightarrow> nat \<Rightarrow> ('s vault \<times> unit) completion" where
  "prune_callback st node pathElement index =
     (let v = fst st;
          hasChildren = (children_or_empty (cells v node) \<noteq> []);
          hasSubscriptions = (subscriptions_or_empty (cells v node) \<noteq> [])
      in if \<not> hasChildren \<and> \<not> hasSubscriptions
         then (case parent (cells v node) of
                 None \<Rightarrow> Normal st
               | Some p \<Rightarrow>
                   (case children (cells v p) of
                      None \<Rightarrow> Throw TypeError st
                    | Some cs \<Rightarrow> Normal (set_children p (AList.delete pathElement cs) v, ())))
         else Normal st)"

definition remove :: "string \<Rightarrow> 's handle \<Rightarrow> 's handle vault \<Rightarrow> 's handle vault completion" where
  "remove topic subscription v =
     (let topicPath = topicToPath topic
      in case traverse topicPath (remove_callback topic subscription topicPath)
                (subscriptionTree v) False (v, None) of
           Throw e st \<Rightarrow> Throw e (fst st)
         | Normal (v1, nextNode) \<Rightarrow>
             (case traverse (rev topicPath) prune_callback
                     (case nextNode of None \<Rightarrow> subscriptionTree v1 | Some n \<Rightarrow> n)
                     True (v1, ()) of
                Normal st \<Rightarrow> Normal (fst st)
              | Throw e st \<Rightarrow> Throw e (fst st)))"

section \<open>findMatches\<close>

text \<open>
  \<^verbatim>\<open>findMatchesByPath\<close> calls itself from inside the callback it hands to
  \<^verbatim>\<open>traverse\<close>, on \<^verbatim>\<open>topicPath.slice(index + 1)\<close>. The callback is only
  ever called with an index inside the path, which is what makes the recursion
  terminate; the two congruence rules say so.
\<close>

lemma traverse_loop_cong:
  assumes "topicPath = topicPath'" "reverseDirection = reverseDirection'" "index = index'" "node = node'" "st = st'"
    and "\<And>s n pathElement i. i < index' + length topicPath' \<Longrightarrow> index' \<le> i \<Longrightarrow> callback s n pathElement i = callback' s n pathElement i"
  shows "traverse_loop callback reverseDirection index topicPath node st
       = traverse_loop callback' reverseDirection' index' topicPath' node' st'"
  unfolding assms(1-5) using assms(6)
proof (induction topicPath' arbitrary: index' node' st' reverseDirection')
  case Nil
  then show ?case by simp
next
  case (Cons p ps)
  have a: "\<And>s n pe. callback s n pe index' = callback' s n pe index'"
    using Cons.prems by simp
  have b: "\<And>nd s r. traverse_loop callback r (Suc index') ps nd s
           = traverse_loop callback' r (Suc index') ps nd s"
    by (rule Cons.IH) (use Cons.prems in simp)
  show ?case by (simp add: a b split: option.split completion.split)
qed

lemma traverse_cong [fundef_cong]:
  assumes "topicPath = topicPath'" "reverseDirection = reverseDirection'" "initialNode = initialNode'" "st = st'"
    and "\<And>s n pathElement i. i < length topicPath' \<Longrightarrow> callback s n pathElement i = callback' s n pathElement i"
  shows "traverse topicPath callback initialNode reverseDirection st
       = traverse topicPath' callback' initialNode' reverseDirection' st'"
  unfolding traverse_def
  by (rule traverse_loop_cong) (use assms in auto)

function findMatchesByPath :: "'s vault \<Rightarrow> string list \<Rightarrow> ref \<Rightarrow> error + 's list" where
  "findMatchesByPath v topicPath initialNode =
     (case traverse topicPath
        (\<lambda>st node pathElement index.
           (let matchingSubscriptions = snd st;
                nd = cells v node;
                multiLevelSubs = (case child_of nd ''#'' of
                                    None \<Rightarrow> []
                                  | Some m \<Rightarrow> subscriptions_or_empty (cells v m));
                singleLevel = child_of nd ''+'';
                nodeSubscriptions = (case child_of nd pathElement of
                                       None \<Rightarrow> []
                                     | Some c \<Rightarrow> subscriptions_or_empty (cells v c));
                isLastPathElement = (Suc index = length topicPath);
                matching1 = (if multiLevelSubs \<noteq> [] \<and> pathElement \<noteq> ''#''
                             then matchingSubscriptions @ multiLevelSubs
                             else matchingSubscriptions)
            in case (case singleLevel of
                       None \<Rightarrow> Inr matching1
                     | Some sl \<Rightarrow>
                         if pathElement \<noteq> ''+''
                         then (case findMatchesByPath v (drop (Suc index) topicPath) sl of
                                 Inl e \<Rightarrow> Inl e
                               | Inr wildcardMatches \<Rightarrow> Inr (matching1 @ wildcardMatches))
                         else Inr matching1) of
                 Inl e \<Rightarrow> Throw e (v, matching1)
               | Inr matching2 \<Rightarrow>
                   Normal (v, if isLastPathElement then matching2 @ nodeSubscriptions
                              else matching2)))
        initialNode False (v, []) of
        Normal st \<Rightarrow> Inr (snd st)
      | Throw e st \<Rightarrow> Inl e)"
  by pat_completeness auto
termination
  by (relation "measure (\<lambda>(v, topicPath, initialNode). length topicPath)") auto


declare findMatchesByPath.simps [simp del]

definition findMatches :: "string \<Rightarrow> 's vault \<Rightarrow> error + 's list" where
  "findMatches topic v = findMatchesByPath v (topicToPath topic) (subscriptionTree v)"

section \<open>Paths, invariants and summaries of the loops\<close>

text \<open>The node a path leads to from a start node, through \<^verbatim>\<open>children\<close>.\<close>

fun walk :: "(ref \<Rightarrow> 's node) \<Rightarrow> ref \<Rightarrow> string list \<Rightarrow> ref option" where
  "walk h a [] = Some a"
| "walk h a (p # ps) = (case child_of (h a) p of None \<Rightarrow> None | Some c \<Rightarrow> walk h c ps)"

text \<open>The subscriptions registered at a path: those of the node it leads to, none when
  there is no such node or no array.\<close>

definition subs_at :: "(ref \<Rightarrow> 's node) \<Rightarrow> ref \<Rightarrow> string list \<Rightarrow> 's list" where
  "subs_at h a ps = (case walk h a ps of None \<Rightarrow> [] | Some c \<Rightarrow> subscriptions_or_empty (h c))"

text \<open>
  The shape of a tree that the vault itself has built. No node is reached by two paths;
  the \<^verbatim>\<open>parent\<close> of a child is the node that holds it; every reachable object has
  been allocated, and the cells from \<open>fresh\<close> on still hold the empty object.
\<close>

definition unshared :: "'s vault \<Rightarrow> bool" where
  "unshared v \<longleftrightarrow>
     (\<forall>ps qs a. walk (cells v) (subscriptionTree v) ps = Some a \<longrightarrow>
                 walk (cells v) (subscriptionTree v) qs = Some a \<longrightarrow> ps = qs)"

definition parent_linked :: "'s vault \<Rightarrow> bool" where
  "parent_linked v \<longleftrightarrow>
     (\<forall>ps a k c. walk (cells v) (subscriptionTree v) ps = Some a \<longrightarrow>
                  child_of (cells v a) k = Some c \<longrightarrow> parent (cells v c) = Some a)"

definition allocated :: "'s vault \<Rightarrow> bool" where
  "allocated v \<longleftrightarrow>
     (\<forall>ps a. walk (cells v) (subscriptionTree v) ps = Some a \<longrightarrow> a < fresh v) \<and>
     (\<forall>a. fresh v \<le> a \<longrightarrow> cells v a = empty_object)"

definition tree_shaped :: "'s vault \<Rightarrow> bool" where
  "tree_shaped v \<longleftrightarrow> unshared v \<and> parent_linked v \<and> allocated v"

text \<open>The test of the pruning pass: no key in \<^verbatim>\<open>children\<close> and no entry in
  \<^verbatim>\<open>subscriptions\<close>, each read with its default.\<close>

definition is_empty_node :: "'s node \<Rightarrow> bool" where
  "is_empty_node nd \<longleftrightarrow> children_or_empty nd = [] \<and> subscriptions_or_empty nd = []"

text \<open>The pruning invariant: no reachable node other than the root is empty. During
  \<^verbatim>\<open>add\<close> and the pruning pass one node, the one the loop is at, is exempt.\<close>

definition pruned_except :: "'s vault \<Rightarrow> ref \<Rightarrow> bool" where
  "pruned_except v x \<longleftrightarrow>
     (\<forall>ps a. walk (cells v) (subscriptionTree v) ps = Some a \<longrightarrow>
             a \<noteq> subscriptionTree v \<longrightarrow> a \<noteq> x \<longrightarrow> \<not> is_empty_node (cells v a))"

definition pruned :: "'s vault \<Rightarrow> bool" where
  "pruned v \<longleftrightarrow>
     (\<forall>ps a. walk (cells v) (subscriptionTree v) ps = Some a \<longrightarrow>
             a \<noteq> subscriptionTree v \<longrightarrow> \<not> is_empty_node (cells v a))"

text \<open>The store after the callback of \<^verbatim>\<open>add\<close> has created the child of \<open>a\<close> at
  \<open>p\<close>: the new object \<^verbatim>\<open>{parent: node}\<close> at the next address, entered in the
  dictionary of \<open>a\<close>.\<close>

definition link_new :: "'s vault \<Rightarrow> ref \<Rightarrow> string \<Rightarrow> 's vault" where
  "link_new v a p =
     v\<lparr>cells := (cells v)
          (fresh v := \<lparr>children = None, subscriptions = None, parent = Some a\<rparr>,
           a := (cells v a)\<lparr>children :=
                  Some (AList.update p (fresh v) (children_or_empty (cells v a)))\<rparr>),
       fresh := Suc (fresh v)\<rparr>"

text \<open>
  What the loop of \<^verbatim>\<open>add\<close> has done when it started at node \<open>a\<close>, reached by
  \<open>pre\<close>, with \<open>rest\<close> still to go: the invariants hold, the handle is appended at
  the end of the path, \<^verbatim>\<open>onTopicAdded\<close> is called if and only if nothing was
  registered there, no other path has gained or lost a subscription, every new path is
  a prefix of the topic, and no \<^verbatim>\<open>children\<close> dictionary has disappeared.
\<close>

definition add_post ::
  "string \<Rightarrow> 's \<Rightarrow> 's vault \<Rightarrow> ref \<Rightarrow> string list \<Rightarrow> string list \<Rightarrow> 's vault \<Rightarrow> bool" where
  "add_post topic s v a pre rest v' \<longleftrightarrow>
     tree_shaped v' \<and> pruned v' \<and> subscriptionTree v' = subscriptionTree v \<and>
     events v' = events v @ (if subs_at (cells v) a rest = [] then [TopicAdded topic] else []) \<and>
     (\<exists>c. walk (cells v') (subscriptionTree v) (pre @ rest) = Some c \<and>
          subscriptions (cells v' c) = Some (subs_at (cells v) a rest @ [s])) \<and>
     (\<forall>qs b. walk (cells v') (subscriptionTree v) qs = Some b \<longrightarrow>
             walk (cells v) (subscriptionTree v) qs = Some b \<or>
             (strict_prefix pre qs \<and> prefix qs (pre @ rest))) \<and>
     (\<forall>qs. qs \<noteq> pre @ rest \<longrightarrow>
          subs_at (cells v') (subscriptionTree v) qs = subs_at (cells v) (subscriptionTree v) qs) \<and>
     (\<forall>b. children (cells v b) \<noteq> None \<longrightarrow> children (cells v' b) \<noteq> None) \<and>
     children (cells v' a) \<noteq> None"

text \<open>The last call of the first callback of \<^verbatim>\<open>remove\<close>, at the terminal node
  \<open>c\<close> (lines 116-130).\<close>

definition unsubscribe :: "string \<Rightarrow> 's handle \<Rightarrow> ref \<Rightarrow> 's handle vault \<Rightarrow> 's handle vault" where
  "unsubscribe topic s c v =
     (let old = subscriptions_or_empty (cells v c);
          v2 = (if s \<in> set old
                then set_subscriptions c (filter (\<lambda>sub. \<not> strictEquals sub s) old) v
                else emit (ConsoleError topic s) v)
      in if subscriptions (cells v2 c) = Some [] then emit (TopicRemoved topic) v2 else v2)"

text \<open>
  What the pruning pass has done when it started at node \<open>a\<close>: the invariants hold,
  nothing was recorded or allocated, no path is new, no \<^verbatim>\<open>subscriptions\<close> has
  changed, no \<^verbatim>\<open>children\<close> dictionary has disappeared, and nothing at all has
  changed if \<open>a\<close> was not empty.
\<close>

definition prune_post :: "'s vault \<Rightarrow> ref \<Rightarrow> 's vault \<Rightarrow> bool" where
  "prune_post v a v' \<longleftrightarrow>
     tree_shaped v' \<and> pruned v' \<and> subscriptionTree v' = subscriptionTree v \<and>
     events v' = events v \<and> fresh v' = fresh v \<and>
     (\<forall>qs b. walk (cells v') (subscriptionTree v) qs = Some b \<longrightarrow>
             walk (cells v) (subscriptionTree v) qs = Some b) \<and>
     (\<forall>b. subscriptions (cells v' b) = subscriptions (cells v b)) \<and>
     (\<forall>b. children (cells v b) \<noteq> None \<longrightarrow> children (cells v' b) \<noteq> None) \<and>
     (\<not> is_empty_node (cells v a) \<longrightarrow> cells v' = cells v)"

text \<open>The vaults that the public operations, called with plain topics, produce from a
  vault constructed without a tree; a call that throws leaves the vault as it was when
  the exception was raised. On these vaults no call has touched
  \<^verbatim>\<open>Object.prototype\<close>, and a handle may be any value, \<^verbatim>\<open>NaN\<close> included.\<close>

inductive reachable :: "'s handle vault \<Rightarrow> bool" where
  start: "reachable new_vault"
| after_add: "reachable v \<Longrightarrow> plain_topic topic \<Longrightarrow> reachable (state_of (add topic s v))"
| after_remove: "reachable v \<Longrightarrow> plain_topic topic \<Longrightarrow> reachable (state_of (remove topic s v))"
| after_reset: "reachable v \<Longrightarrow> reachable (reset v)"

text \<open>
  \<^verbatim>\<open>findMatchesByPath\<close> with the loop of \<^verbatim>\<open>traverse\<close> inlined: a recursion over
  the segments that remain, on the store alone. \<open>findMatchesByPath_loop\<close> proves the
  two equal.
\<close>

fun match_loop :: "(ref \<Rightarrow> 's node) \<Rightarrow> string list \<Rightarrow> ref option \<Rightarrow> 's list \<Rightarrow> error + 's list" where
  "match_loop h [] node acc = Inr acc"
| "match_loop h (p # rest) None acc = Inr acc"
| "match_loop h (p # rest) (Some n) acc =
     (let multiLevelSubs = (case child_of (h n) ''#'' of
                              None \<Rightarrow> []
                            | Some m \<Rightarrow> subscriptions_or_empty (h m));
          nodeSubscriptions = (case child_of (h n) p of
                                 None \<Rightarrow> []
                               | Some c \<Rightarrow> subscriptions_or_empty (h c));
          matching1 = (if multiLevelSubs \<noteq> [] \<and> p \<noteq> ''#'' then acc @ multiLevelSubs else acc)
      in case (case child_of (h n) ''+'' of
                 None \<Rightarrow> Inr matching1
               | Some sl \<Rightarrow>
                   if p \<noteq> ''+''
                   then (case match_loop h rest (Some sl) [] of
                           Inl e \<Rightarrow> Inl e
                         | Inr wildcardMatches \<Rightarrow> Inr (matching1 @ wildcardMatches))
                   else Inr matching1) of
           Inl e \<Rightarrow> Inl e
         | Inr matching2 \<Rightarrow>
             (case children (h n) of
                None \<Rightarrow> Inl TypeError
              | Some cs \<Rightarrow>
                  match_loop h rest (map_of cs p)
                    (if rest = [] then matching2 @ nodeSubscriptions else matching2)))"

text \<open>The callback of \<^verbatim>\<open>findMatchesByPath\<close> by name.\<close>

definition match_callback ::
  "'s vault \<Rightarrow> string list \<Rightarrow> 's vault \<times> 's list \<Rightarrow> ref \<Rightarrow> string \<Rightarrow> nat \<Rightarrow>
   ('s vault \<times> 's list) completion" where
  "match_callback v topicPath = (\<lambda>st node pathElement index.
           (let matchingSubscriptions = snd st;
                nd = cells v node;
                multiLevelSubs = (case child_of nd ''#'' of
                                    None \<Rightarrow> []
                                  | Some m \<Rightarrow> subscriptions_or_empty (cells v m));
                singleLevel = child_of nd ''+'';
                nodeSubscriptions = (case child_of nd pathElement of
                                       None \<Rightarrow> []
                                     | Some c \<Rightarrow> subscriptions_or_empty (cells v c));
                isLastPathElement = (Suc index = length topicPath);
                matching1 = (if multiLevelSubs \<noteq> [] \<and> pathElement \<noteq> ''#''
                             then matchingSubscriptions @ multiLevelSubs
                             else matchingSubscriptions)
            in case (case singleLevel of
                       None \<Rightarrow> Inr matching1
                     | Some sl \<Rightarrow>
                         if pathElement \<noteq> ''+''
                         then (case findMatchesByPath v (drop (Suc index) topicPath) sl of
                                 Inl e \<Rightarrow> Inl e
                               | Inr wildcardMatches \<Rightarrow> Inr (matching1 @ wildcardMatches))
                         else Inr matching1) of
                 Inl e \<Rightarrow> Throw e (v, matching1)
               | Inr matching2 \<Rightarrow>
                   Normal (v, if isLastPathElement then matching2 @ nodeSubscriptions
                              else matching2)))"

text \<open>The value \<^verbatim>\<open>findMatchesByPath\<close> makes of a traversal.\<close>

definition outcome :: "('s vault \<times> 's list) completion \<Rightarrow> error + 's list" where
  "outcome r = (case r of Normal st \<Rightarrow> Inr (snd st) | Throw e st \<Rightarrow> Inl e)"

text \<open>Matches found earlier stay in front of a result.\<close>

definition prepend :: "'s list \<Rightarrow> error + 's list \<Rightarrow> error + 's list" where
  "prepend acc r = (case r of Inl e \<Rightarrow> Inl e | Inr l \<Rightarrow> Inr (acc @ l))"

text \<open>What one call of the callback adds to the matches.\<close>

definition callback_matches ::
  "(ref \<Rightarrow> 's node) \<Rightarrow> string \<Rightarrow> string list \<Rightarrow> ref \<Rightarrow> 's list \<Rightarrow> error + 's list" where
  "callback_matches h p rest n acc =
     (let multiLevelSubs = (case child_of (h n) ''#'' of
                              None \<Rightarrow> []
                            | Some m \<Rightarrow> subscriptions_or_empty (h m));
          nodeSubscriptions = (case child_of (h n) p of
                                 None \<Rightarrow> []
                               | Some c \<Rightarrow> subscriptions_or_empty (h c));
          matching1 = (if multiLevelSubs \<noteq> [] \<and> p \<noteq> ''#'' then acc @ multiLevelSubs else acc)
      in case (case child_of (h n) ''+'' of
                 None \<Rightarrow> Inr matching1
               | Some sl \<Rightarrow>
                   if p \<noteq> ''+''
                   then (case match_loop h rest (Some sl) [] of
                           Inl e \<Rightarrow> Inl e
                         | Inr wildcardMatches \<Rightarrow> Inr (matching1 @ wildcardMatches))
                   else Inr matching1) of
           Inl e \<Rightarrow> Inl e
         | Inr matching2 \<Rightarrow> Inr (if rest = [] then matching2 @ nodeSubscriptions else matching2))"

text \<open>The tree of the class comment (lines 23-42), as the caller's object literal
  leaves it in the store: five objects, none with a \<^verbatim>\<open>parent\<close>, and the handle
  \<^verbatim>\<open>callbackRef\<close> in the array of the last.\<close>

definition documented_tree_of :: "'s \<Rightarrow> 's vault" where
  "documented_tree_of callbackRef =
     \<lparr>cells = (\<lambda>_. empty_object)
        (0 := \<lparr>children = Some [(''status'', 1)], subscriptions = None, parent = None\<rparr>,
         1 := \<lparr>children = Some [(''myAccountId'', 2)], subscriptions = None, parent = None\<rparr>,
         2 := \<lparr>children = Some [(''collections'', 3)], subscriptions = None, parent = None\<rparr>,
         3 := \<lparr>children = Some [(''#'', 4)], subscriptions = None, parent = None\<rparr>,
         4 := \<lparr>children = None, subscriptions = Some [callbackRef], parent = None\<rparr>),
      fresh = 5, subscriptionTree = 0, events = []\<rparr>"

text \<open>The same tree with the handle \<open>7\<close> for \<^verbatim>\<open>callbackRef\<close>.\<close>

definition documented_tree :: "nat vault" where
  "documented_tree = documented_tree_of 7"

section \<open>Lemmas\<close>

subsection \<open>Traversal of a node without a children dictionary\<close>

lemma split_nonempty: "split d s \<noteq> []"
  by (induction s) (auto split: list.splits)

lemma topicToPath_nonempty: "topicToPath topic \<noteq> []"
  by (simp add: topicToPath_def split_nonempty)

lemma findMatchesByPath_no_children:
  assumes "children (cells v a) = None" and "topicPath \<noteq> []"
  shows "findMatchesByPath v topicPath a = Inl TypeError"
proof -
  obtain p ps where tp: "topicPath = p # ps"
    using assms(2) by (cases topicPath) auto
  show ?thesis
    unfolding tp findMatchesByPath.simps [of v "p # ps" a] traverse_def
    using assms(1) by (simp add: child_of_def Let_def)
qed

lemma new_vault_root: "children (cells (new_vault :: 's vault) (subscriptionTree (new_vault :: 's vault))) = None"
  by (simp add: new_vault_def constructor_def alloc_def empty_store_def empty_object_def)

lemma reset_root: "children (cells (reset v) (subscriptionTree (reset v))) = None"
  by (simp add: reset_def alloc_def empty_object_def)

lemma walk_append:
  "walk h a (ps @ qs) = (case walk h a ps of None \<Rightarrow> None | Some b \<Rightarrow> walk h b qs)"
  by (induction ps arbitrary: a) (auto split: option.splits)

lemma walk_snoc:
  "walk h a (ps @ [k]) = (case walk h a ps of None \<Rightarrow> None | Some b \<Rightarrow> child_of (h b) k)"
  by (simp add: walk_append split: option.splits)

lemma walk_children_cong:
  assumes "\<And>b. children (h' b) = children (h b)"
  shows "walk h' a qs = walk h a qs"
  by (induction qs arbitrary: a) (simp_all add: child_of_def assms split: option.split)

lemma walk_upd_frame:
  assumes "\<And>qs'. strict_prefix qs' qs \<Longrightarrow> walk h a qs' \<noteq> Some x"
  shows "walk (h(x := y)) a qs = walk h a qs"
  using assms
proof (induction qs arbitrary: a)
  case Nil
  then show ?case by simp
next
  case (Cons p ps)
  have ax: "a \<noteq> x"
    using Cons.prems [of "[]"] by simp
  show ?case
  proof (cases "child_of (h a) p")
    case None
    then show ?thesis using ax by simp
  next
    case (Some c)
    have "walk (h(x := y)) c ps = walk h c ps"
    proof (rule Cons.IH)
      fix qs' assume "strict_prefix qs' ps"
      then have "strict_prefix (p # qs') (p # ps)" by simp
      from Cons.prems [OF this] Some show "walk h c qs' \<noteq> Some x" by simp
    qed
    moreover have "child_of ((h(x := y)) a) p = Some c"
      using ax Some by simp
    ultimately show ?thesis using Some by (simp only: walk.simps option.case)
  qed
qed

lemma pruned_except_root [simp]: "pruned_except v (subscriptionTree v) = pruned v"
  by (auto simp: pruned_except_def pruned_def)

lemma pruned_imp_except: "pruned v \<Longrightarrow> pruned_except v x"
  by (auto simp: pruned_except_def pruned_def)

lemma add_callback_existing:
  assumes "child_of (cells v a) p = Some c"
  shows "add_callback topic s tp (v, ()) a p i =
     Normal ((if Suc i = length tp
              then (if subscriptions_or_empty (cells v c) = []
                    then emit (TopicAdded topic)
                           (set_subscriptions c (subscriptions_or_empty (cells v c) @ [s]) v)
                    else set_subscriptions c (subscriptions_or_empty (cells v c) @ [s]) v)
              else v), ())"
proof -
  obtain cs where cs: "children (cells v a) = Some cs" "map_of cs p = Some c"
    using assms by (auto simp: child_of_def split: option.splits)
  have same: "(cells v a)\<lparr>children := Some cs\<rparr> = cells v a"
    using cs(1) by (cases "cells v a") simp
  have "set_children a (AList.update p c cs) v = v\<lparr>cells := cells v\<rparr>"
    by (simp only: set_children_def update_triv [OF cs(2)] same fun_upd_triv)
  then have triv: "set_children a (AList.update p c cs) v = v"
    by simp
  show ?thesis
    using assms cs
    by (simp add: add_callback_def Let_def children_or_empty_def triv)
qed

lemma add_callback_new:
  assumes "child_of (cells v a) p = None" and "a \<noteq> fresh v"
  shows "add_callback topic s tp (v, ()) a p i =
     Normal ((if Suc i = length tp
              then emit (TopicAdded topic) (set_subscriptions (fresh v) [s] (link_new v a p))
              else link_new v a p), ())"
  using assms
  by (cases "children (cells v a)")
     (simp_all add: add_callback_def Let_def alloc_def set_children_def link_new_def
       children_or_empty_def emit_def set_subscriptions_def)

lemma child_of_link_new:
  assumes "child_of (cells v a) p = None" and "cells v (fresh v) = empty_object"
    and "a \<noteq> fresh v"
  shows "child_of (cells (link_new v a p) b) k =
           (if b = a \<and> k = p then Some (fresh v) else child_of (cells v b) k)"
  using assms
  by (auto simp: link_new_def child_of_def children_or_empty_def update_conv' empty_object_def
      split: option.splits)

lemma walk_link_new:
  assumes "child_of (cells v a) p = None" and "cells v (fresh v) = empty_object"
    and "a \<noteq> fresh v"
  shows "walk (cells (link_new v a p)) x qs =
     (case walk (cells v) x qs of
        Some b \<Rightarrow> Some b
      | None \<Rightarrow> if qs \<noteq> [] \<and> last qs = p \<and> walk (cells v) x (butlast qs) = Some a
                then Some (fresh v) else None)"
proof (induction qs arbitrary: x)
  case Nil
  then show ?case by simp
next
  case (Cons k ks)
  note co = child_of_link_new [OF assms]
  have fresh_walk: "walk (cells v) (fresh v) ks = (if ks = [] then Some (fresh v) else None)"
    using assms(2) by (cases ks) (simp_all add: child_of_def empty_object_def)
  show ?case
  proof (cases "x = a \<and> k = p")
    case True
    have fresh_butlast: "walk (cells v) (fresh v) (butlast ks) \<noteq> Some a"
      using assms(2,3) by (cases "butlast ks") (simp_all add: child_of_def empty_object_def)
    have lhs: "walk (cells (link_new v a p)) x (k # ks) = (if ks = [] then Some (fresh v) else None)"
      using True fresh_walk fresh_butlast by (simp add: co Cons.IH)
    have rhs: "walk (cells v) x (k # ks) = None"
      using True assms(1) by simp
    have "walk (cells v) a (butlast (p # ks)) = Some a \<longleftrightarrow> ks = []"
      using assms(1) by (cases ks) simp_all
    then show ?thesis
      unfolding lhs rhs using True by (cases ks) simp_all
  next
    case False
    show ?thesis
    proof (cases "child_of (cells v x) k")
      case None
      then show ?thesis using False by (auto simp: co)
    next
      case (Some y)
      then show ?thesis using False by (auto simp: co Cons.IH split: option.splits)
    qed
  qed
qed

lemma tree_shapedD:
  assumes "tree_shaped v"
  shows "walk (cells v) (subscriptionTree v) ps = Some a \<Longrightarrow>
         walk (cells v) (subscriptionTree v) qs = Some a \<Longrightarrow> ps = qs"
    and "walk (cells v) (subscriptionTree v) ps = Some a \<Longrightarrow>
         child_of (cells v a) k = Some c \<Longrightarrow> parent (cells v c) = Some a"
    and "walk (cells v) (subscriptionTree v) ps = Some a \<Longrightarrow> a < fresh v"
    and "fresh v \<le> b \<Longrightarrow> cells v b = empty_object"
  using assms
  unfolding tree_shaped_def unshared_def parent_linked_def allocated_def by blast+

lemma child_of_SomeD:
  "child_of nd k = Some c \<Longrightarrow> \<exists>cs. children nd = Some cs \<and> map_of cs k = Some c"
  by (auto simp: child_of_def split: option.splits)

lemma child_of_nonempty: "child_of nd k = Some c \<Longrightarrow> \<not> is_empty_node nd"
  by (auto simp: child_of_def is_empty_node_def children_or_empty_def split: option.splits)

subsection \<open>Linking a new child\<close>

lemma walk_link_new_root:
  assumes ts: "tree_shaped v"
    and wa: "walk (cells v) (subscriptionTree v) pre = Some a"
    and no: "child_of (cells v a) p = None"
  shows "walk (cells (link_new v a p)) (subscriptionTree v) qs =
           (if qs = pre @ [p] then Some (fresh v) else walk (cells v) (subscriptionTree v) qs)"
proof -
  have af: "a \<noteq> fresh v"
    using tree_shapedD(3) [OF ts wa] by simp
  have fe: "cells v (fresh v) = empty_object"
    using tree_shapedD(4) [OF ts] by simp
  note w = walk_link_new [OF no fe af, of "subscriptionTree v" qs]
  show ?thesis
  proof (cases "qs = pre @ [p]")
    case True
    then show ?thesis using w wa no by (simp add: walk_snoc)
  next
    case False
    show ?thesis
    proof (cases "walk (cells v) (subscriptionTree v) qs")
      case (Some b)
      then show ?thesis using w False by simp
    next
      case None
      have "\<not> (qs \<noteq> [] \<and> last qs = p \<and> walk (cells v) (subscriptionTree v) (butlast qs) = Some a)"
      proof
        assume h: "qs \<noteq> [] \<and> last qs = p \<and> walk (cells v) (subscriptionTree v) (butlast qs) = Some a"
        then have "butlast qs = pre"
          using tree_shapedD(1) [OF ts _ wa] by blast
        then have "qs = pre @ [p]"
          using h append_butlast_last_id [of qs] by auto
        then show False using False by simp
      qed
      then show ?thesis using w None False by simp
    qed
  qed
qed

lemma link_new_fields [simp]:
  "subscriptionTree (link_new v a p) = subscriptionTree v"
  "events (link_new v a p) = events v"
  "fresh (link_new v a p) = Suc (fresh v)"
  by (simp_all add: link_new_def)

lemma link_new_cell:
  "a \<noteq> fresh v \<Longrightarrow> cells (link_new v a p) b =
     (if b = a then (cells v a)\<lparr>children :=
                      Some (AList.update p (fresh v) (children_or_empty (cells v a)))\<rparr>
      else if b = fresh v then \<lparr>children = None, subscriptions = None, parent = Some a\<rparr>
      else cells v b)"
  by (simp add: link_new_def)

lemma tree_shaped_link_new:
  assumes ts: "tree_shaped v"
    and wa: "walk (cells v) (subscriptionTree v) pre = Some a"
    and no: "child_of (cells v a) p = None"
  shows "tree_shaped (link_new v a p)"
proof -
  let ?v = "link_new v a p" and ?r = "subscriptionTree v"
  have af: "a \<noteq> fresh v"
    using tree_shapedD(3) [OF ts wa] by simp
  have fe: "cells v (fresh v) = empty_object"
    using tree_shapedD(4) [OF ts] by simp
  note w = walk_link_new_root [OF ts wa no]
  note co = child_of_link_new [OF no fe af]
  note cell = link_new_cell [OF af]
  have old_lt: "\<And>qs b. walk (cells v) ?r qs = Some b \<Longrightarrow> b < fresh v"
    using tree_shapedD(3) [OF ts] by blast
  have "unshared ?v"
    unfolding unshared_def
  proof (intro allI impI)
    fix ps qs b
    assume 1: "walk (cells ?v) (subscriptionTree ?v) ps = Some b"
       and 2: "walk (cells ?v) (subscriptionTree ?v) qs = Some b"
    show "ps = qs"
    proof (cases "ps = pre @ [p]")
      case True
      then have "b = fresh v" using 1 by (simp add: w)
      then show ?thesis using 2 True old_lt [of qs b] by (auto simp: w split: if_splits)
    next
      case False
      then have o1: "walk (cells v) ?r ps = Some b" using 1 by (simp add: w)
      then have "b \<noteq> fresh v" using old_lt by blast
      then have "walk (cells v) ?r qs = Some b" using 2 by (simp add: w split: if_splits)
      then show ?thesis using tree_shapedD(1) [OF ts o1] by blast
    qed
  qed
  moreover have "parent_linked ?v"
    unfolding parent_linked_def
  proof (intro allI impI)
    fix ps b k c
    assume 1: "walk (cells ?v) (subscriptionTree ?v) ps = Some b"
       and 2: "child_of (cells ?v b) k = Some c"
    show "parent (cells ?v c) = Some b"
    proof (cases "b = a \<and> k = p")
      case True
      then have "c = fresh v" using 2 by (simp add: co)
      then show ?thesis using True af by (simp add: cell)
    next
      case False
      then have c2: "child_of (cells v b) k = Some c" using 2 by (auto simp: co)
      have "b \<noteq> fresh v"
        using c2 fe by (auto simp: child_of_def empty_object_def)
      then have o1: "walk (cells v) ?r ps = Some b"
        using 1 by (simp add: w split: if_splits)
      then have "walk (cells v) ?r (ps @ [k]) = Some c"
        using c2 by (simp add: walk_snoc)
      then have "c \<noteq> fresh v" using old_lt by blast
      moreover have "parent (cells v c) = Some b"
        using tree_shapedD(2) [OF ts o1 c2] .
      ultimately show ?thesis by (auto simp: cell)
    qed
  qed
  moreover have "allocated ?v"
    unfolding allocated_def
  proof (intro conjI allI impI)
    fix ps b
    assume "walk (cells ?v) (subscriptionTree ?v) ps = Some b"
    then show "b < fresh ?v"
      using old_lt [of ps b] by (auto simp: w split: if_splits)
  next
    fix b assume "fresh ?v \<le> b"
    then have "b \<noteq> a" "b \<noteq> fresh v" "fresh v \<le> b"
      using tree_shapedD(3) [OF ts wa] by auto
    then show "cells ?v b = empty_object"
      using tree_shapedD(4) [OF ts] by (simp add: cell)
  qed
  ultimately show ?thesis by (simp add: tree_shaped_def)
qed

lemma pruned_except_link_new:
  assumes ts: "tree_shaped v"
    and wa: "walk (cells v) (subscriptionTree v) pre = Some a"
    and no: "child_of (cells v a) p = None"
    and pe: "pruned_except v a"
  shows "pruned_except (link_new v a p) (fresh v)"
  unfolding pruned_except_def
proof (intro allI impI)
  fix ps b
  let ?v = "link_new v a p"
  assume 1: "walk (cells ?v) (subscriptionTree ?v) ps = Some b"
     and 2: "b \<noteq> subscriptionTree ?v" and 3: "b \<noteq> fresh v"
  have af: "a \<noteq> fresh v"
    using tree_shapedD(3) [OF ts wa] by simp
  have o1: "walk (cells v) (subscriptionTree v) ps = Some b"
    using 1 3 by (simp add: walk_link_new_root [OF ts wa no] split: if_splits)
  show "\<not> is_empty_node (cells ?v b)"
  proof (cases "b = a")
    case True
    then show ?thesis
      by (simp add: link_new_cell [OF af] is_empty_node_def children_or_empty_def)
  next
    case False
    then have "\<not> is_empty_node (cells v b)"
      using pe o1 2 by (auto simp: pruned_except_def)
    then show ?thesis using False 3 by (simp add: link_new_cell [OF af])
  qed
qed

lemma subs_at_link_new:
  assumes ts: "tree_shaped v"
    and wa: "walk (cells v) (subscriptionTree v) pre = Some a"
    and no: "child_of (cells v a) p = None"
  shows "subs_at (cells (link_new v a p)) (subscriptionTree v) qs
       = subs_at (cells v) (subscriptionTree v) qs"
proof -
  have af: "a \<noteq> fresh v"
    using tree_shapedD(3) [OF ts wa] by simp
  note w = walk_link_new_root [OF ts wa no]
  show ?thesis
  proof (cases "qs = pre @ [p]")
    case True
    have "walk (cells v) (subscriptionTree v) qs = None"
      using True wa no by (simp add: walk_snoc)
    moreover have "walk (cells (link_new v a p)) (subscriptionTree v) qs = Some (fresh v)"
      using True by (simp add: w)
    ultimately show ?thesis
      using af by (simp add: subs_at_def link_new_cell subscriptions_or_empty_def)
  next
    case False
    show ?thesis
    proof (cases "walk (cells v) (subscriptionTree v) qs")
      case None
      then show ?thesis using False by (simp add: subs_at_def w)
    next
      case (Some b)
      then have "b \<noteq> fresh v" using tree_shapedD(3) [OF ts Some] by simp
      then show ?thesis
        using False Some af
        by (simp add: subs_at_def w link_new_cell subscriptions_or_empty_def)
    qed
  qed
qed

subsection \<open>Storing a subscription list\<close>

lemma set_subscriptions_fields [simp]:
  "subscriptionTree (set_subscriptions c l v) = subscriptionTree v"
  "events (set_subscriptions c l v) = events v"
  "fresh (set_subscriptions c l v) = fresh v"
  "children (cells (set_subscriptions c l v) b) = children (cells v b)"
  "parent (cells (set_subscriptions c l v) b) = parent (cells v b)"
  "subscriptions (cells (set_subscriptions c l v) b) =
     (if b = c then Some l else subscriptions (cells v b))"
  by (simp_all add: set_subscriptions_def)

lemma emit_fields [simp]:
  "subscriptionTree (emit e v) = subscriptionTree v"
  "events (emit e v) = events v @ [e]"
  "fresh (emit e v) = fresh v"
  "cells (emit e v) = cells v"
  by (simp_all add: emit_def)

lemma walk_set_subscriptions [simp]:
  "walk (cells (set_subscriptions c l v)) = walk (cells v)"
  by (intro ext walk_children_cong) simp

lemma child_of_set_subscriptions [simp]:
  "child_of (cells (set_subscriptions c l v) b) = child_of (cells v b)"
  by (intro ext) (simp add: child_of_def)

lemma tree_shaped_set_subscriptions:
  assumes "tree_shaped v" and "c < fresh v"
  shows "tree_shaped (set_subscriptions c l v)"
proof -
  have "\<And>b. fresh v \<le> b \<Longrightarrow> cells (set_subscriptions c l v) b = cells v b"
    using assms(2) by (simp add: set_subscriptions_def)
  then show ?thesis
    using assms(1)
    by (simp add: tree_shaped_def unshared_def parent_linked_def allocated_def)
qed

lemma tree_shaped_emit [simp]: "tree_shaped (emit e v) = tree_shaped v"
  by (simp add: tree_shaped_def unshared_def parent_linked_def allocated_def)

lemma pruned_emit [simp]: "pruned (emit e v) = pruned v"
  by (simp add: pruned_def)

lemma is_empty_node_set_subscriptions:
  "is_empty_node (cells (set_subscriptions c l v) b) \<longleftrightarrow>
     (if b = c then children_or_empty (cells v c) = [] \<and> l = [] else is_empty_node (cells v b))"
  by (simp add: is_empty_node_def children_or_empty_def subscriptions_or_empty_def)

lemma pruned_set_subscriptions:
  assumes "pruned_except v c" and "l \<noteq> []"
  shows "pruned (set_subscriptions c l v)"
  using assms
  by (auto simp: pruned_def pruned_except_def is_empty_node_set_subscriptions)

lemma traverse_loop_None [simp]:
  "traverse_loop callback d i rest None st = Normal st"
  by (induction rest arbitrary: i) simp_all

lemma traverse_loop_descend:
  assumes "callback st n p i = Normal st'" and "child_of (cells (fst st') n) p = Some c"
  shows "traverse_loop callback False i (p # rest) (Some n) st
       = traverse_loop callback False (Suc i) rest (Some c) st'"
  using assms child_of_SomeD [OF assms(2)] by auto

lemma add_last_existing:
  fixes s :: 's and topic :: string
  assumes ts: "tree_shaped v" and pe: "pruned_except v a"
    and wa: "walk (cells v) (subscriptionTree v) pre = Some a"
    and ch: "child_of (cells v a) p = Some c"
  defines "old \<equiv> subscriptions_or_empty (cells v c)"
  defines "v4 \<equiv> set_subscriptions c (old @ [s]) v"
  defines "v5 \<equiv> (if old = [] then emit (TopicAdded topic) v4 else v4)"
  shows "add_post topic s v a pre [p] v5"
proof -
  let ?r = "subscriptionTree v"
  have wc: "walk (cells v) ?r (pre @ [p]) = Some c"
    using wa ch by (simp add: walk_snoc)
  have clt: "c < fresh v"
    using tree_shapedD(3) [OF ts wc] .
  have old: "subs_at (cells v) a [p] = old"
    using ch by (simp add: subs_at_def old_def)
  have cells5: "cells v5 = cells v4" and root5: "subscriptionTree v5 = ?r"
    by (simp_all add: v5_def v4_def)
  have "pruned v"
    using pe child_of_nonempty [OF ch]
    by (auto simp: pruned_def pruned_except_def)
  then have "pruned v4"
    unfolding v4_def by (intro pruned_set_subscriptions pruned_imp_except) simp_all
  then have 1: "pruned v5" by (simp add: v5_def)
  have 2: "tree_shaped v5"
    using tree_shaped_set_subscriptions [OF ts clt] by (simp add: v5_def v4_def)
  have 3: "events v5 = events v @ (if subs_at (cells v) a [p] = [] then [TopicAdded topic] else [])"
    by (simp add: old v5_def v4_def)
  have 4: "walk (cells v5) ?r (pre @ [p]) = Some c \<and>
           subscriptions (cells v5 c) = Some (subs_at (cells v) a [p] @ [s])"
    using wc by (simp add: cells5 v4_def old)
  have 5: "\<forall>qs. qs \<noteq> pre @ [p] \<longrightarrow> subs_at (cells v5) ?r qs = subs_at (cells v) ?r qs"
  proof (intro allI impI)
    fix qs assume ne: "qs \<noteq> pre @ [p]"
    show "subs_at (cells v5) ?r qs = subs_at (cells v) ?r qs"
    proof (cases "walk (cells v) ?r qs")
      case None
      then show ?thesis by (simp add: subs_at_def cells5 v4_def)
    next
      case (Some b)
      then have "b \<noteq> c" using tree_shapedD(1) [OF ts, of qs c "pre @ [p]"] wc ne by auto
      then show ?thesis
        using Some by (simp add: subs_at_def cells5 v4_def subscriptions_or_empty_def)
    qed
  qed
  have 6: "children (cells v5 a) \<noteq> None"
    using child_of_SomeD [OF ch] by (auto simp: cells5 v4_def)
  show ?thesis
    unfolding add_post_def
    using 1 2 3 4 5 6 by (simp add: root5) (simp add: cells5 v4_def)
qed

lemma add_last_new:
  fixes s :: 's and topic :: string
  assumes ts: "tree_shaped v" and pe: "pruned_except v a"
    and wa: "walk (cells v) (subscriptionTree v) pre = Some a"
    and no: "child_of (cells v a) p = None"
  defines "v5 \<equiv> emit (TopicAdded topic) (set_subscriptions (fresh v) [s] (link_new v a p))"
  shows "add_post topic s v a pre [p] v5"
proof -
  let ?r = "subscriptionTree v" and ?l = "link_new v a p"
  have af: "a \<noteq> fresh v"
    using tree_shapedD(3) [OF ts wa] by simp
  note w = walk_link_new_root [OF ts wa no]
  have wk5: "walk (cells v5) = walk (cells ?l)"
    by (simp add: v5_def)
  have old: "subs_at (cells v) a [p] = []"
    using no by (simp add: subs_at_def)
  have tl: "tree_shaped ?l"
    using tree_shaped_link_new [OF ts wa no] .
  have 1: "tree_shaped v5"
    unfolding v5_def using tree_shaped_set_subscriptions [OF tl, of "fresh v"] by simp
  have 2: "pruned v5"
    unfolding v5_def
    using pruned_set_subscriptions [OF pruned_except_link_new [OF ts wa no pe], of "[s]"] by simp
  have 3: "events v5 = events v @ (if subs_at (cells v) a [p] = [] then [TopicAdded topic] else [])"
    by (simp add: old v5_def)
  have 4: "walk (cells v5) ?r (pre @ [p]) = Some (fresh v) \<and>
           subscriptions (cells v5 (fresh v)) = Some (subs_at (cells v) a [p] @ [s])"
    by (simp add: wk5 w old) (simp add: v5_def)
  have 5: "\<forall>qs b. walk (cells v5) ?r qs = Some b \<longrightarrow>
             walk (cells v) ?r qs = Some b \<or> (strict_prefix pre qs \<and> prefix qs (pre @ [p]))"
    by (auto simp: wk5 w strict_prefix_def split: if_splits)
  have 6: "\<forall>qs. qs \<noteq> pre @ [p] \<longrightarrow> subs_at (cells v5) ?r qs = subs_at (cells v) ?r qs"
  proof (intro allI impI)
    fix qs assume ne: "qs \<noteq> pre @ [p]"
    have "subs_at (cells v5) ?r qs = subs_at (cells ?l) ?r qs"
    proof (cases "walk (cells ?l) ?r qs")
      case None
      then show ?thesis by (simp add: subs_at_def wk5)
    next
      case (Some b)
      then have "walk (cells v) ?r qs = Some b" using ne by (simp add: w)
      then have "b \<noteq> fresh v" using tree_shapedD(3) [OF ts] by blast
      then show ?thesis
        using Some by (simp add: subs_at_def wk5) (simp add: v5_def subscriptions_or_empty_def)
    qed
    then show "subs_at (cells v5) ?r qs = subs_at (cells v) ?r qs"
      by (simp add: subs_at_link_new [OF ts wa no])
  qed
  have 7: "\<forall>b. children (cells v b) \<noteq> None \<longrightarrow> children (cells v5 b) \<noteq> None"
    using tree_shapedD(4) [OF ts, of "fresh v"]
    by (auto simp: v5_def link_new_cell [OF af] empty_object_def)
  have 8: "children (cells v5 a) \<noteq> None"
    by (simp add: v5_def link_new_cell [OF af])
  have 9: "subscriptionTree v5 = ?r" by (simp add: v5_def)
  show ?thesis
    unfolding add_post_def using 1 2 3 4 5 6 7 8 9 by simp
qed

lemma add_post_step_existing:
  assumes post: "add_post topic s v c (pre @ [p]) rest v'"
    and ch: "child_of (cells v a) p = Some c"
  shows "add_post topic s v a pre (p # rest) v'"
proof -
  have old: "subs_at (cells v) a (p # rest) = subs_at (cells v) c rest"
    using ch by (simp add: subs_at_def)
  have "children (cells v a) \<noteq> None"
    using child_of_SomeD [OF ch] by auto
  then have "children (cells v' a) \<noteq> None"
    using post unfolding add_post_def by blast
  moreover have "\<And>qs. strict_prefix (pre @ [p]) qs \<Longrightarrow> strict_prefix pre qs"
    by (meson prefix_order.dual_order.strict_trans prefix_snoc strict_prefixI' strict_prefix_def)
  ultimately show ?thesis
    using post unfolding add_post_def old by auto
qed

lemma add_post_step_new:
  assumes post: "add_post topic s (link_new v a p) (fresh v) (pre @ [p]) rest v'"
    and ts: "tree_shaped v"
    and wa: "walk (cells v) (subscriptionTree v) pre = Some a"
    and no: "child_of (cells v a) p = None"
    and rest: "rest \<noteq> []"
  shows "add_post topic s v a pre (p # rest) v'"
proof -
  let ?r = "subscriptionTree v" and ?l = "link_new v a p"
  have af: "a \<noteq> fresh v"
    using tree_shapedD(3) [OF ts wa] by simp
  note w = walk_link_new_root [OF ts wa no]
  have fe: "cells v (fresh v) = empty_object"
    using tree_shapedD(4) [OF ts] by simp
  have old: "subs_at (cells v) a (p # rest) = []"
    using no by (simp add: subs_at_def)
  obtain k ks where rest': "rest = k # ks" using rest by (cases rest) auto
  have "child_of (cells ?l (fresh v)) k = child_of (cells v (fresh v)) k"
    using af by (simp add: child_of_link_new [OF no fe af])
  also have "\<dots> = None"
    by (simp add: fe child_of_def empty_object_def)
  finally have old': "subs_at (cells ?l) (fresh v) rest = []"
    by (simp add: subs_at_def rest')
  have pres: "\<forall>b. children (cells v b) \<noteq> None \<longrightarrow> children (cells ?l b) \<noteq> None"
    using fe by (auto simp: link_new_cell [OF af] empty_object_def)
  have here: "children (cells ?l a) \<noteq> None"
    by (simp add: link_new_cell [OF af])
  have sp: "\<And>qs. strict_prefix (pre @ [p]) qs \<Longrightarrow> strict_prefix pre qs"
    by (meson prefix_order.dual_order.strict_trans prefix_snoc strict_prefixI' strict_prefix_def)
  have paths: "\<forall>qs b. walk (cells v') ?r qs = Some b \<longrightarrow>
      walk (cells v) ?r qs = Some b \<or> (strict_prefix pre qs \<and> prefix qs (pre @ p # rest))"
  proof (intro allI impI)
    fix qs b assume "walk (cells v') ?r qs = Some b"
    then consider "walk (cells ?l) ?r qs = Some b"
      | "strict_prefix (pre @ [p]) qs \<and> prefix qs (pre @ p # rest)"
      using post unfolding add_post_def by auto
    then show "walk (cells v) ?r qs = Some b \<or> (strict_prefix pre qs \<and> prefix qs (pre @ p # rest))"
    proof cases
      case 1
      then show ?thesis by (auto simp: w strict_prefix_def split: if_splits)
    next
      case 2
      then show ?thesis using sp by blast
    qed
  qed
  have subs: "\<forall>qs. qs \<noteq> pre @ p # rest \<longrightarrow> subs_at (cells v') ?r qs = subs_at (cells v) ?r qs"
    using post unfolding add_post_def by (simp add: subs_at_link_new [OF ts wa no])
  show ?thesis
    unfolding add_post_def old
    using post pres here paths subs unfolding add_post_def old' by auto
qed

lemma add_loop:
  assumes "tree_shaped v" and "pruned_except v a"
    and "walk (cells v) (subscriptionTree v) pre = Some a" and "rest \<noteq> []"
  shows "\<exists>v'. traverse_loop (add_callback topic s (pre @ rest)) False (length pre) rest
                (Some a) (v, ()) = Normal (v', ()) \<and>
              add_post topic s v a pre rest v'"
  using assms
proof (induction rest arbitrary: v a pre)
  case Nil
  then show ?case by simp
next
  case (Cons p rest)
  note ts = Cons.prems(1) and pe = Cons.prems(2) and wa = Cons.prems(3)
  let ?cb = "add_callback topic s (pre @ p # rest)"
  have idx: "(Suc (length pre) = length (pre @ p # rest)) = (rest = [])" by auto
  show ?case
  proof (cases "child_of (cells v a) p")
    case (Some c)
    note cb = add_callback_existing [OF Some, of topic s "pre @ p # rest" "length pre"]
    show ?thesis
    proof (cases "rest = []")
      case True
      let ?old = "subscriptions_or_empty (cells v c)"
      let ?v4 = "set_subscriptions c (?old @ [s]) v"
      let ?v5 = "if ?old = [] then emit (TopicAdded topic) ?v4 else ?v4"
      have cbv: "?cb (v, ()) a p (length pre) = Normal (?v5, ())"
        unfolding cb using True by simp
      have "child_of (cells (fst (?v5, ())) a) p = Some c"
        using Some by simp
      with cbv
      have "traverse_loop ?cb False (length pre) (p # rest) (Some a) (v, ()) = Normal (?v5, ())"
        using True traverse_loop_descend [of ?cb "(v, ())" a p "length pre" "(?v5, ())" c rest]
        by simp
      then show ?thesis
        using add_last_existing [OF ts pe wa Some, of topic s] True by auto
    next
      case False
      have "pruned v"
        using pe child_of_nonempty [OF Some] by (auto simp: pruned_def pruned_except_def)
      then have pe': "pruned_except v c" by (rule pruned_imp_except)
      have wc: "walk (cells v) (subscriptionTree v) (pre @ [p]) = Some c"
        using wa Some by (simp add: walk_snoc)
      from Cons.IH [OF ts pe' wc False]
      obtain v' where
        run: "traverse_loop ?cb False (Suc (length pre)) rest (Some c) (v, ()) = Normal (v', ())"
        and post: "add_post topic s v c (pre @ [p]) rest v'"
        by auto
      have "traverse_loop ?cb False (length pre) (p # rest) (Some a) (v, ())
          = traverse_loop ?cb False (Suc (length pre)) rest (Some c) (v, ())"
        by (rule traverse_loop_descend) (unfold cb, use False Some in simp_all)
      then show ?thesis
        using run add_post_step_existing [OF post Some] by auto
    qed
  next
    case None
    have af: "a \<noteq> fresh v"
      using tree_shapedD(3) [OF ts wa] by simp
    have fe: "cells v (fresh v) = empty_object"
      using tree_shapedD(4) [OF ts] by simp
    note cb = add_callback_new [OF None af, of topic s "pre @ p # rest" "length pre"]
    have chl: "child_of (cells (link_new v a p) a) p = Some (fresh v)"
      by (simp add: child_of_link_new [OF None fe af])
    show ?thesis
    proof (cases "rest = []")
      case True
      let ?v5 = "emit (TopicAdded topic) (set_subscriptions (fresh v) [s] (link_new v a p))"
      have "child_of (cells ?v5 a) p = Some (fresh v)"
        using chl by simp
      moreover have "?cb (v, ()) a p (length pre) = Normal (?v5, ())"
        unfolding cb using True by simp
      ultimately have "traverse_loop ?cb False (length pre) (p # rest) (Some a) (v, ()) = Normal (?v5, ())"
        using True traverse_loop_descend [of ?cb "(v, ())" a p "length pre" "(?v5, ())" "fresh v" rest]
        by simp
      then show ?thesis
        using add_last_new [OF ts pe wa None, of topic s] True by auto
    next
      case False
      let ?l = "link_new v a p"
      have tl: "tree_shaped ?l"
        using tree_shaped_link_new [OF ts wa None] .
      have pl: "pruned_except ?l (fresh v)"
        using pruned_except_link_new [OF ts wa None pe] .
      have wl: "walk (cells ?l) (subscriptionTree ?l) (pre @ [p]) = Some (fresh v)"
        by (simp add: walk_link_new_root [OF ts wa None])
      from Cons.IH [OF tl pl wl False]
      obtain v' where
        run: "traverse_loop ?cb False (Suc (length pre)) rest (Some (fresh v)) (?l, ()) = Normal (v', ())"
        and post: "add_post topic s ?l (fresh v) (pre @ [p]) rest v'"
        by auto
      have "traverse_loop ?cb False (length pre) (p # rest) (Some a) (v, ())
          = traverse_loop ?cb False (Suc (length pre)) rest (Some (fresh v)) (?l, ())"
        by (rule traverse_loop_descend) (unfold cb, use False chl in simp_all)
      then show ?thesis
        using run add_post_step_new [OF post ts wa None False] by auto
    qed
  qed
qed

lemma add_ok:
  assumes "tree_shaped v" and "pruned v"
  shows "\<exists>v'. add topic s v = Normal v' \<and>
              add_post topic s v (subscriptionTree v) [] (topicToPath topic) v'"
proof -
  have "pruned_except v (subscriptionTree v)" using assms(2) by simp
  from add_loop [OF assms(1) this, of "[]" "topicToPath topic" topic s]
  show ?thesis
    by (auto simp: add_def traverse_def topicToPath_nonempty)
qed

subsection \<open>The downward pass of remove\<close>

lemma includes_iff [simp]: "list_ex (\<lambda>sub. sameValueZero sub s) l \<longleftrightarrow> s \<in> set l"
  by (auto simp: list_ex_iff sameValueZero_def)

lemma filter_strictEquals:
  "s \<noteq> NaN \<Longrightarrow> filter (\<lambda>sub. \<not> strictEquals sub s) l = filter (\<lambda>sub. sub \<noteq> s) l"
  by (rule filter_cong) (auto simp: strictEquals_def)

lemma filter_strictEquals_NaN [simp]: "filter (\<lambda>sub. \<not> strictEquals sub NaN) l = l"
  by (simp add: strictEquals_def)


lemma remove_callback_existing:
  assumes "child_of (cells v a) p = Some c"
  shows "remove_callback topic s tp (v, nn) a p i =
           Normal (if Suc i = length tp then unsubscribe topic s c v else v, Some c)"
  using assms by (simp add: remove_callback_def unsubscribe_def Let_def)

lemma remove_callback_absent:
  assumes "child_of (cells v a) p = None"
  shows "remove_callback topic s tp (v, nn) a p i =
           Normal (if Suc i = length tp
                   then emit (ConsoleError topic s) (snd (alloc empty_object v))
                   else snd (alloc empty_object v), Some (fresh v))"
  using assms
  by (simp add: remove_callback_def Let_def alloc_def empty_object_def emit_def)

lemma remove_down_resolves:
  assumes "walk (cells v) a rest = Some c" and "rest \<noteq> []"
  shows "traverse_loop (remove_callback topic s (pre @ rest)) False (length pre) rest
           (Some a) (v, nn) = Normal (unsubscribe topic s c v, Some c)"
  using assms
proof (induction rest arbitrary: a pre nn)
  case Nil
  then show ?case by simp
next
  case (Cons p rest)
  let ?cb = "remove_callback topic s (pre @ p # rest)"
  obtain b where b: "child_of (cells v a) p = Some b" and wb: "walk (cells v) b rest = Some c"
    using Cons.prems(1) by (auto split: option.splits)
  note cb = remove_callback_existing [OF b, of topic s "pre @ p # rest" nn "length pre"]
  show ?case
  proof (cases "rest = []")
    case True
    then have bc: "b = c" using wb by simp
    let ?u = "unsubscribe topic s c v"
    have cbv: "?cb (v, nn) a p (length pre) = Normal (?u, Some c)"
      unfolding cb using True bc by simp
    have "children (cells ?u a) = children (cells v a)"
      by (simp add: unsubscribe_def Let_def)
    then have "child_of (cells (fst (?u, Some c)) a) p = Some c"
      using b bc by (simp add: child_of_def)
    with cbv show ?thesis
      using True traverse_loop_descend [of ?cb "(v, nn)" a p "length pre" "(?u, Some c)" c rest]
      by simp
  next
    case False
    have cbv: "?cb (v, nn) a p (length pre) = Normal (v, Some b)"
      unfolding cb using False by simp
    have "traverse_loop ?cb False (length pre) (p # rest) (Some a) (v, nn)
        = traverse_loop ?cb False (Suc (length pre)) rest (Some b) (v, Some b)"
      by (rule traverse_loop_descend) (simp_all add: cbv b)
    also have "\<dots> = Normal (unsubscribe topic s c v, Some c)"
      using Cons.IH [OF wb False, of "pre @ [p]" "Some b"] by simp
    finally show ?thesis .
  qed
qed

lemma remove_down_unresolved:
  assumes "walk (cells v) a rest = None"
  shows "\<exists>v1. (traverse_loop (remove_callback topic s (pre @ rest)) False (length pre) rest
                 (Some a) (v, nn) = Normal (v1, Some (fresh v)) \<or>
               traverse_loop (remove_callback topic s (pre @ rest)) False (length pre) rest
                 (Some a) (v, nn) = Throw TypeError (v1, Some (fresh v))) \<and>
              cells v1 = (cells v)(fresh v := empty_object) \<and> fresh v1 = Suc (fresh v) \<and>
              subscriptionTree v1 = subscriptionTree v \<and>
              (events v1 = events v \<or> events v1 = events v @ [ConsoleError topic s])"
  using assms
proof (induction rest arbitrary: a pre nn)
  case Nil
  then show ?case by simp
next
  case (Cons p rest)
  let ?cb = "remove_callback topic s (pre @ p # rest)"
  show ?case
  proof (cases "child_of (cells v a) p")
    case (Some b)
    then have wb: "walk (cells v) b rest = None" using Cons.prems by simp
    then have ne: "rest \<noteq> []" by auto
    note cb = remove_callback_existing [OF Some, of topic s "pre @ p # rest" nn "length pre"]
    have cbv: "?cb (v, nn) a p (length pre) = Normal (v, Some b)"
      unfolding cb using ne by simp
    have "traverse_loop ?cb False (length pre) (p # rest) (Some a) (v, nn)
        = traverse_loop ?cb False (Suc (length pre)) rest (Some b) (v, Some b)"
      by (rule traverse_loop_descend) (simp_all add: cbv Some)
    then show ?thesis
      using Cons.IH [OF wb, of "pre @ [p]" "Some b"] by simp
  next
    case None
    note cb = remove_callback_absent [OF None, of topic s "pre @ p # rest" nn "length pre"]
    define v1 where "v1 = (if Suc (length pre) = length (pre @ p # rest)
               then emit (ConsoleError topic s) (snd (alloc empty_object v))
               else snd (alloc empty_object v))"
    have props: "cells v1 = (cells v)(fresh v := empty_object)" "fresh v1 = Suc (fresh v)"
      "subscriptionTree v1 = subscriptionTree v"
      "events v1 = events v \<or> events v1 = events v @ [ConsoleError topic s]"
      by (simp_all add: v1_def alloc_def)
    have cbv: "?cb (v, nn) a p (length pre) = Normal (v1, Some (fresh v))"
      unfolding cb v1_def by simp
    have none': "child_of (cells v1 a) p = None"
      using None by (simp add: props(1) child_of_def empty_object_def)
    have "traverse_loop ?cb False (length pre) (p # rest) (Some a) (v, nn) = Normal (v1, Some (fresh v))
        \<or> traverse_loop ?cb False (length pre) (p # rest) (Some a) (v, nn) = Throw TypeError (v1, Some (fresh v))"
    proof (cases "children (cells v1 a)")
      case None
      then show ?thesis by (simp add: cbv)
    next
      case (Some cs)
      then have "map_of cs p = None" using none' by (simp add: child_of_def)
      then show ?thesis using Some by (simp add: cbv)
    qed
    then show ?thesis using props by blast
  qed
qed

subsection \<open>The upward pass of remove\<close>

lemma prune_callback_keep:
  "\<not> is_empty_node (cells v a) \<Longrightarrow> prune_callback (v, ()) a k i = Normal (v, ())"
  by (auto simp: prune_callback_def is_empty_node_def Let_def)

lemma prune_callback_unlink:
  assumes "is_empty_node (cells v a)" and "parent (cells v a) = Some p"
    and "children (cells v p) = Some cs"
  shows "prune_callback (v, ()) a k i = Normal (set_children p (AList.delete k cs) v, ())"
  using assms by (auto simp: prune_callback_def is_empty_node_def Let_def)

lemma traverse_loop_ascend:
  assumes "callback st n p i = Normal st'"
  shows "traverse_loop callback True i (p # rest) (Some n) st
       = traverse_loop callback True (Suc i) rest (parent (cells (fst st') n)) st'"
  using assms by simp

lemma set_children_fields [simp]:
  "subscriptionTree (set_children p cs v) = subscriptionTree v"
  "events (set_children p cs v) = events v"
  "fresh (set_children p cs v) = fresh v"
  "subscriptions (cells (set_children p cs v) b) = subscriptions (cells v b)"
  "parent (cells (set_children p cs v) b) = parent (cells v b)"
  "children (cells (set_children p cs v) b) = (if b = p then Some cs else children (cells v b))"
  by (simp_all add: set_children_def)

lemma child_of_unlink:
  assumes "children (cells v p) = Some cs"
  shows "child_of (cells (set_children p (AList.delete k cs) v) b) j =
           (if b = p \<and> j = k then None else child_of (cells v b) j)"
  using assms by (simp add: child_of_def delete_conv')

lemma walk_unlink_mono:
  assumes "children (cells v p) = Some cs"
    and "walk (cells (set_children p (AList.delete k cs) v)) x qs = Some b"
  shows "walk (cells v) x qs = Some b"
  using assms(2)
proof (induction qs arbitrary: x)
  case Nil
  then show ?case by simp
next
  case (Cons j js)
  then show ?case
    by (auto simp: child_of_unlink [OF assms(1)] split: option.splits if_splits)
qed

lemma prune_step:
  assumes ts: "tree_shaped v" and pe: "pruned_except v a"
    and wp: "walk (cells v) (subscriptionTree v) pre = Some p"
    and ch: "child_of (cells v p) k = Some a"
    and cs: "children (cells v p) = Some cs"
  defines "v1 \<equiv> set_children p (AList.delete k cs) v"
  shows "tree_shaped v1" and "pruned_except v1 p"
    and "walk (cells v1) (subscriptionTree v) pre = Some p"
proof -
  let ?r = "subscriptionTree v"
  note mono = walk_unlink_mono [OF cs, of k, folded v1_def]
  note co = child_of_unlink [OF cs, of k, folded v1_def]
  have wa: "walk (cells v) ?r (pre @ [k]) = Some a"
    using wp ch by (simp add: walk_snoc)
  have plt: "p < fresh v" using tree_shapedD(3) [OF ts wp] .
  have cell: "\<And>b. b \<noteq> p \<Longrightarrow> cells v1 b = cells v b"
    by (simp add: v1_def set_children_def)
  have "walk (cells v1) ?r pre = walk (cells v) ?r pre"
    unfolding v1_def set_children_def
  proof (simp, rule walk_upd_frame)
    fix qs' assume "strict_prefix qs' pre"
    then have "qs' \<noteq> pre" by (simp add: strict_prefix_def)
    then show "walk (cells v) ?r qs' \<noteq> Some p"
      using tree_shapedD(1) [OF ts _ wp] by blast
  qed
  then show w1: "walk (cells v1) ?r pre = Some p" using wp by simp
  have gone: "walk (cells v1) ?r (pre @ [k]) = None"
    using w1 by (simp add: walk_snoc co)
  have "unshared v1"
    unfolding unshared_def
  proof (intro allI impI)
    fix ps qs b
    assume "walk (cells v1) (subscriptionTree v1) ps = Some b"
       and "walk (cells v1) (subscriptionTree v1) qs = Some b"
    then have "walk (cells v) ?r ps = Some b" "walk (cells v) ?r qs = Some b"
      using mono by (simp_all add: v1_def)
    then show "ps = qs" by (rule tree_shapedD(1) [OF ts])
  qed
  moreover have "parent_linked v1"
    unfolding parent_linked_def
  proof (intro allI impI)
    fix ps b j c
    assume 1: "walk (cells v1) (subscriptionTree v1) ps = Some b"
       and 2: "child_of (cells v1 b) j = Some c"
    have "walk (cells v) ?r ps = Some b" using 1 mono by (simp add: v1_def)
    moreover have "child_of (cells v b) j = Some c"
      using 2 by (auto simp: co split: if_splits)
    ultimately have "parent (cells v c) = Some b"
      using tree_shapedD(2) [OF ts] by blast
    then show "parent (cells v1 c) = Some b" by (simp add: v1_def)
  qed
  moreover have "allocated v1"
    unfolding allocated_def
  proof (intro conjI allI impI)
    fix ps b assume "walk (cells v1) (subscriptionTree v1) ps = Some b"
    then have "walk (cells v) ?r ps = Some b" using mono by (simp add: v1_def)
    then show "b < fresh v1" using tree_shapedD(3) [OF ts] by (simp add: v1_def)
  next
    fix b assume "fresh v1 \<le> b"
    then have "fresh v \<le> b" "b \<noteq> p" using plt by (auto simp: v1_def)
    then show "cells v1 b = empty_object"
      using tree_shapedD(4) [OF ts] cell by simp
  qed
  ultimately show "tree_shaped v1" by (simp add: tree_shaped_def)
  show "pruned_except v1 p"
    unfolding pruned_except_def
  proof (intro allI impI)
    fix ps b
    assume 1: "walk (cells v1) (subscriptionTree v1) ps = Some b"
       and 2: "b \<noteq> subscriptionTree v1" and 3: "b \<noteq> p"
    have o: "walk (cells v) ?r ps = Some b" using 1 mono by (simp add: v1_def)
    have "b \<noteq> a"
    proof
      assume "b = a"
      then have "ps = pre @ [k]" using tree_shapedD(1) [OF ts, of ps a "pre @ [k]"] o wa by simp
      then show False using 1 gone by (simp add: v1_def)
    qed
    then have "\<not> is_empty_node (cells v b)"
      using pe o 2 by (auto simp: pruned_except_def v1_def)
    then show "\<not> is_empty_node (cells v1 b)" using cell [OF 3] by simp
  qed
qed

lemma prune_loop:
  assumes "tree_shaped v" and "pruned_except v a"
    and "walk (cells v) (subscriptionTree v) (rev rest) = Some a"
  shows "\<exists>v'. traverse_loop prune_callback True i rest (Some a) (v, ()) = Normal (v', ()) \<and>
              prune_post v a v'"
  using assms
proof (induction rest arbitrary: v a i)
  case Nil
  then have "a = subscriptionTree v" by simp
  then show ?case using Nil by (simp add: prune_post_def)
next
  case (Cons k rest)
  note ts = Cons.prems(1) and pe = Cons.prems(2)
  let ?r = "subscriptionTree v"
  have wa: "walk (cells v) ?r (rev rest @ [k]) = Some a"
    using Cons.prems(3) by simp
  then have "(case walk (cells v) ?r (rev rest) of None \<Rightarrow> None
              | Some b \<Rightarrow> child_of (cells v b) k) = Some a"
    by (simp only: walk_snoc)
  then obtain p where wp: "walk (cells v) ?r (rev rest) = Some p"
    and ch: "child_of (cells v p) k = Some a"
    by (cases "walk (cells v) ?r (rev rest)") simp_all
  obtain cs where cs: "children (cells v p) = Some cs"
    using child_of_SomeD [OF ch] by auto
  have par: "parent (cells v a) = Some p"
    using tree_shapedD(2) [OF ts wp ch] .
  have ap: "a \<noteq> p"
  proof
    assume "a = p"
    then have "rev rest @ [k] = rev rest"
      using tree_shapedD(1) [OF ts, of "rev rest @ [k]" p "rev rest"] wa wp by simp
    then show False by simp
  qed
  have pne: "\<not> is_empty_node (cells v p)"
    using child_of_nonempty [OF ch] .
  show ?case
  proof (cases "is_empty_node (cells v a)")
    case False
    have "pruned v"
      using pe False by (auto simp: pruned_def pruned_except_def)
    then have pe': "pruned_except v p" by (rule pruned_imp_except)
    from Cons.IH [OF ts pe' wp, of "Suc i"]
    obtain v' where run: "traverse_loop prune_callback True (Suc i) rest (Some p) (v, ()) = Normal (v', ())"
      and post: "prune_post v p v'" by auto
    have "traverse_loop prune_callback True i (k # rest) (Some a) (v, ())
        = traverse_loop prune_callback True (Suc i) rest (parent (cells (fst (v, ())) a)) (v, ())"
      by (rule traverse_loop_ascend) (rule prune_callback_keep [OF False])
    then have "traverse_loop prune_callback True i (k # rest) (Some a) (v, ()) = Normal (v', ())"
      using run par by simp
    moreover have "prune_post v a v'"
      using post pne unfolding prune_post_def by blast
    ultimately show ?thesis by blast
  next
    case True
    let ?v1 = "set_children p (AList.delete k cs) v"
    note step = prune_step [OF ts pe wp ch cs]
    have w1: "walk (cells ?v1) (subscriptionTree ?v1) (rev rest) = Some p"
      using step(3) by simp
    from Cons.IH [OF step(1) step(2) w1, of "Suc i"]
    obtain v' where run: "traverse_loop prune_callback True (Suc i) rest (Some p) (?v1, ()) = Normal (v', ())"
      and post: "prune_post ?v1 p v'" by auto
    have "parent (cells ?v1 a) = Some p"
      using par by simp
    moreover have "traverse_loop prune_callback True i (k # rest) (Some a) (v, ())
        = traverse_loop prune_callback True (Suc i) rest (parent (cells (fst (?v1, ())) a)) (?v1, ())"
      by (rule traverse_loop_ascend) (rule prune_callback_unlink [OF True par cs])
    ultimately have "traverse_loop prune_callback True i (k # rest) (Some a) (v, ()) = Normal (v', ())"
      using run by simp
    moreover have "prune_post v a v'"
    proof -
      have a: "tree_shaped v'" "pruned v'" "subscriptionTree v' = ?r" "events v' = events v"
        "fresh v' = fresh v"
        using post by (simp_all add: prune_post_def)
      have b: "\<forall>qs b. walk (cells v') ?r qs = Some b \<longrightarrow> walk (cells v) ?r qs = Some b"
      proof (intro allI impI)
        fix qs b assume "walk (cells v') ?r qs = Some b"
        then have "walk (cells ?v1) ?r qs = Some b"
          using post by (simp add: prune_post_def)
        then show "walk (cells v) ?r qs = Some b"
          by (rule walk_unlink_mono [OF cs])
      qed
      have c: "\<forall>b. subscriptions (cells v' b) = subscriptions (cells v b)"
        using post by (simp add: prune_post_def)
      have d: "\<forall>b. children (cells v b) \<noteq> None \<longrightarrow> children (cells v' b) \<noteq> None"
      proof (intro allI impI)
        fix b assume "children (cells v b) \<noteq> None"
        then have "children (cells ?v1 b) \<noteq> None" by simp
        then show "children (cells v' b) \<noteq> None"
          using post unfolding prune_post_def by blast
      qed
      show ?thesis
        unfolding prune_post_def using a b c d True by blast
    qed
    ultimately show ?thesis by blast
  qed
qed

subsection \<open>remove as a whole\<close>

lemma unsubscribe_fields [simp]:
  "subscriptionTree (unsubscribe topic s c v) = subscriptionTree v"
  "fresh (unsubscribe topic s c v) = fresh v"
  "children (cells (unsubscribe topic s c v) b) = children (cells v b)"
  "parent (cells (unsubscribe topic s c v) b) = parent (cells v b)"
  by (simp_all add: unsubscribe_def Let_def)

lemma walk_unsubscribe [simp]: "walk (cells (unsubscribe topic s c v)) = walk (cells v)"
  by (intro ext walk_children_cong) simp

lemma subscriptions_unsubscribe:
  "subscriptions (cells (unsubscribe topic s c v) b) =
     (if b = c \<and> s \<in> set (subscriptions_or_empty (cells v c))
      then Some (filter (\<lambda>sub. \<not> strictEquals sub s) (subscriptions_or_empty (cells v c)))
      else subscriptions (cells v b))"
  by (simp add: unsubscribe_def Let_def)

lemma events_unsubscribe:
  "events (unsubscribe topic s c v) =
     events v @
     (if s \<in> set (subscriptions_or_empty (cells v c)) then [] else [ConsoleError topic s]) @
     (if subscriptions (cells (unsubscribe topic s c v) c) = Some []
      then [TopicRemoved topic] else [])"
  by (simp add: unsubscribe_def Let_def)

lemma cells_unsubscribe_absent:
  "s \<notin> set (subscriptions_or_empty (cells v c)) \<Longrightarrow> cells (unsubscribe topic s c v) = cells v"
  by (simp add: unsubscribe_def Let_def)

lemma tree_shaped_unsubscribe:
  assumes "tree_shaped v" and "c < fresh v"
  shows "tree_shaped (unsubscribe topic s c v)"
  using assms by (simp add: unsubscribe_def Let_def tree_shaped_set_subscriptions)

lemma pruned_except_emit [simp]: "pruned_except (emit e v) x = pruned_except v x"
  by (simp add: pruned_except_def)

lemma pruned_except_set_subscriptions:
  assumes "pruned_except v c"
  shows "pruned_except (set_subscriptions c l v) c"
  using assms by (auto simp: pruned_except_def is_empty_node_set_subscriptions)

lemma pruned_except_unsubscribe:
  assumes "pruned v"
  shows "pruned_except (unsubscribe topic s c v) c"
  using pruned_imp_except [OF assms, of c]
  by (simp add: unsubscribe_def Let_def pruned_except_set_subscriptions)

lemma remove_resolved:
  assumes ts: "tree_shaped v" and pr: "pruned v"
    and wc: "walk (cells v) (subscriptionTree v) (topicToPath topic) = Some c"
  shows "\<exists>v'. remove topic s v = Normal v' \<and> prune_post (unsubscribe topic s c v) c v'"
proof -
  let ?path = "topicToPath topic" and ?u = "unsubscribe topic s c v"
  have down: "traverse ?path (remove_callback topic s ?path) (subscriptionTree v) False (v, None)
            = Normal (?u, Some c)"
    using remove_down_resolves [OF wc topicToPath_nonempty, of topic s "[]" None]
    by (simp add: traverse_def)
  have tu: "tree_shaped ?u"
    using tree_shaped_unsubscribe [OF ts tree_shapedD(3) [OF ts wc]] .
  have pu: "pruned_except ?u c"
    using pruned_except_unsubscribe [OF pr] .
  have wu: "walk (cells ?u) (subscriptionTree ?u) (rev (rev ?path)) = Some c"
    using wc by simp
  from prune_loop [OF tu pu wu, of 0]
  obtain v' where up: "traverse_loop prune_callback True 0 (rev ?path) (Some c) (?u, ()) = Normal (v', ())"
    and post: "prune_post ?u c v'" by blast
  have "remove topic s v = Normal v'"
    using down up by (simp add: remove_def Let_def traverse_def)
  then show ?thesis using post by blast
qed

lemma prune_temporary:
  assumes "cells v t = empty_object" and "rest \<noteq> []"
  shows "traverse_loop prune_callback True i rest (Some t) (v, ()) = Normal (v, ())"
proof -
  obtain k ks where rest: "rest = k # ks" using assms(2) by (cases rest) auto
  have "prune_callback (v, ()) t k i = Normal (v, ())"
    using assms(1) by (simp add: prune_callback_def Let_def empty_object_def
        children_or_empty_def subscriptions_or_empty_def)
  then show ?thesis
    using assms(1) by (simp add: rest empty_object_def)
qed

lemma remove_unresolved:
  assumes wn: "walk (cells v) (subscriptionTree v) (topicToPath topic) = None"
    and fe: "cells v (fresh v) = empty_object"
  shows "\<exists>v1. (remove topic s v = Normal v1 \<or> remove topic s v = Throw TypeError v1) \<and>
              cells v1 = cells v \<and> fresh v1 = Suc (fresh v) \<and>
              subscriptionTree v1 = subscriptionTree v \<and>
              (events v1 = events v \<or> events v1 = events v @ [ConsoleError topic s])"
proof -
  let ?path = "topicToPath topic"
  let ?down = "traverse ?path (remove_callback topic s ?path) (subscriptionTree v) False (v, None)"
  from remove_down_unresolved [OF wn, of topic s "[]" None]
  obtain v1 where res: "?down = Normal (v1, Some (fresh v)) \<or> ?down = Throw TypeError (v1, Some (fresh v))"
    and c1: "cells v1 = (cells v)(fresh v := empty_object)" and f1: "fresh v1 = Suc (fresh v)"
    and r1: "subscriptionTree v1 = subscriptionTree v"
    and e1: "events v1 = events v \<or> events v1 = events v @ [ConsoleError topic s]"
    by (auto simp: traverse_def)
  have c1': "cells v1 = cells v"
    using c1 fe by (metis fun_upd_triv)
  have up: "traverse (rev ?path) prune_callback (fresh v) True (v1, ()) = Normal (v1, ())"
    unfolding traverse_def
    by (rule prune_temporary) (simp_all add: c1' fe topicToPath_nonempty)
  from res have "remove topic s v = Normal v1 \<or> remove topic s v = Throw TypeError v1"
  proof
    assume "?down = Normal (v1, Some (fresh v))"
    then have "remove topic s v = Normal v1"
      using up by (simp add: remove_def Let_def)
    then show ?thesis ..
  next
    assume "?down = Throw TypeError (v1, Some (fresh v))"
    then have "remove topic s v = Throw TypeError v1"
      by (simp add: remove_def Let_def)
    then show ?thesis ..
  qed
  then show ?thesis using c1' f1 r1 e1 by blast
qed

lemma invariants_grow:
  assumes "tree_shaped v" and "pruned v"
    and "cells v1 = cells v" and "fresh v \<le> fresh v1" and "subscriptionTree v1 = subscriptionTree v"
  shows "tree_shaped v1" and "pruned v1"
proof -
  show "pruned v1"
    using assms(2) by (simp add: pruned_def assms(3,5))
  have "\<And>ps a. walk (cells v) (subscriptionTree v) ps = Some a \<Longrightarrow> a < fresh v1"
    using tree_shapedD(3) [OF assms(1)] assms(4) by fastforce
  moreover have "\<And>a. fresh v1 \<le> a \<Longrightarrow> cells v a = empty_object"
    using tree_shapedD(4) [OF assms(1)] assms(4) by simp
  ultimately show "tree_shaped v1"
    using assms(1)
    by (simp add: tree_shaped_def unshared_def parent_linked_def allocated_def assms(3,5))
qed

lemma remove_invariants:
  assumes ts: "tree_shaped v" and pr: "pruned v"
  shows "tree_shaped (state_of (remove topic s v)) \<and> pruned (state_of (remove topic s v)) \<and>
         subscriptionTree (state_of (remove topic s v)) = subscriptionTree v"
proof (cases "walk (cells v) (subscriptionTree v) (topicToPath topic)")
  case (Some c)
  from remove_resolved [OF ts pr Some, of s]
  show ?thesis by (auto simp: prune_post_def)
next
  case None
  from remove_unresolved [OF None tree_shapedD(4) [OF ts order_refl], of s]
  obtain v1 where res: "remove topic s v = Normal v1 \<or> remove topic s v = Throw TypeError v1"
    and props: "cells v1 = cells v" "fresh v1 = Suc (fresh v)"
      "subscriptionTree v1 = subscriptionTree v"
    by blast
  have "state_of (remove topic s v) = v1" using res by auto
  moreover have "tree_shaped v1" "pruned v1"
    using invariants_grow [OF ts pr props(1) _ props(3)] props(2) by simp_all
  ultimately show ?thesis using props(3) by simp
qed

subsection \<open>Reachable vaults\<close>

lemma walk_from_empty:
  assumes "h a = empty_object"
  shows "walk h a ps = (if ps = [] then Some a else None)"
  using assms by (cases ps) (simp_all add: child_of_def empty_object_def)

lemma invariants_new_root:
  assumes "\<And>a. fresh v \<le> a \<Longrightarrow> cells v a = empty_object"
  defines "v' \<equiv> snd (alloc empty_object v)\<lparr>subscriptionTree := fresh v\<rparr>"
  shows "tree_shaped v'" and "pruned v'"
proof -
  have cells': "cells v' = cells v"
    using assms(1) [of "fresh v"] by (simp add: v'_def alloc_def fun_upd_idem)
  have root: "subscriptionTree v' = fresh v" and fr: "fresh v' = Suc (fresh v)"
    by (simp_all add: v'_def alloc_def)
  have w: "\<And>ps. walk (cells v') (fresh v) ps = (if ps = [] then Some (fresh v) else None)"
    unfolding cells' by (rule walk_from_empty) (simp add: assms(1))
  show "pruned v'"
    by (simp add: pruned_def w root)
  have "unshared v'"
    by (simp add: unshared_def w root)
  moreover have "parent_linked v'"
    unfolding parent_linked_def root
  proof (intro allI impI)
    fix ps a k c
    assume "walk (cells v') (fresh v) ps = Some a" and ch: "child_of (cells v' a) k = Some c"
    then have "a = fresh v" by (simp add: w split: if_splits)
    then have "child_of (cells v' a) k = None"
      using assms(1) [of "fresh v"] by (simp add: cells' child_of_def empty_object_def)
    then show "parent (cells v' c) = Some a" using ch by simp
  qed
  moreover have "allocated v'"
    unfolding allocated_def root fr
  proof (intro conjI allI impI)
    fix ps a assume "walk (cells v') (fresh v) ps = Some a"
    then show "a < Suc (fresh v)" by (simp add: w split: if_splits)
  next
    fix a assume "Suc (fresh v) \<le> a"
    then show "cells v' a = empty_object" using assms(1) [of a] by (simp add: cells')
  qed
  ultimately show "tree_shaped v'" by (simp add: tree_shaped_def)
qed

lemma new_vault_invariants: "tree_shaped (new_vault :: 's vault)" "pruned (new_vault :: 's vault)"
proof -
  have e: "\<And>a. fresh (empty_store :: 's vault) \<le> a \<Longrightarrow> cells (empty_store :: 's vault) a = empty_object"
    by (simp add: empty_store_def)
  have nv: "(new_vault :: 's vault) = snd (alloc empty_object empty_store)\<lparr>subscriptionTree := fresh (empty_store :: 's vault)\<rparr>"
    by (simp add: new_vault_def constructor_def alloc_def)
  show "tree_shaped (new_vault :: 's vault)" "pruned (new_vault :: 's vault)"
    unfolding nv using invariants_new_root [OF e] by blast+
qed

lemma reset_invariants:
  assumes "tree_shaped v"
  shows "tree_shaped (reset v)" "pruned (reset v)"
proof -
  have rs: "reset v = snd (alloc empty_object v)\<lparr>subscriptionTree := fresh v\<rparr>"
    by (simp add: reset_def alloc_def)
  show "tree_shaped (reset v)" "pruned (reset v)"
    unfolding rs using invariants_new_root [OF tree_shapedD(4) [OF assms]] by blast+
qed

lemma reachable_invariants:
  assumes "reachable v"
  shows "tree_shaped v \<and> pruned v"
  using assms
proof (induction rule: reachable.induct)
  case start
  show ?case using new_vault_invariants by blast
next
  case (after_add v topic s)
  then obtain v' where "add topic s v = Normal v'" "add_post topic s v (subscriptionTree v) [] (topicToPath topic) v'"
    using add_ok [of v topic s] by blast
  then show ?case by (simp add: add_post_def)
next
  case (after_remove v topic s)
  then show ?case using remove_invariants [of v topic s] by blast
next
  case (after_reset v)
  then show ?case using reset_invariants [of v] by blast
qed

subsection \<open>The matcher as a loop over the remaining path\<close>

lemma findMatchesByPath_traverse:
  "findMatchesByPath v topicPath a =
     (case traverse topicPath (match_callback v topicPath) a False (v, []) of
        Normal st \<Rightarrow> Inr (snd st)
      | Throw e st \<Rightarrow> Inl e)"
  unfolding match_callback_def by (rule findMatchesByPath.simps)

lemma outcome_simps [simp]:
  "outcome (Normal st) = Inr (snd st)" "outcome (Throw e st) = Inl e"
  by (simp_all add: outcome_def)

lemma match_traverse_loop:
  assumes IH: "\<And>qs b. length qs < length (pre @ rest) \<Longrightarrow>
                 findMatchesByPath v qs b = match_loop (cells v) qs (Some b) []"
  shows "outcome (traverse_loop (match_callback v (pre @ rest)) False (length pre) rest node (v, acc))
       = match_loop (cells v) rest node acc"
  using IH
proof (induction rest arbitrary: pre node acc)
  case Nil
  then show ?case by simp
next
  case (Cons p rest)
  show ?case
  proof (cases node)
    case None
    then show ?thesis by simp
  next
    case (Some n)
    let ?h = "cells v"
    define multi where "multi = (case child_of (?h n) ''#'' of
                              None \<Rightarrow> []
                            | Some m \<Rightarrow> subscriptions_or_empty (?h m))"
    define nodeSubs where "nodeSubs = (case child_of (?h n) p of
                                 None \<Rightarrow> []
                               | Some c \<Rightarrow> subscriptions_or_empty (?h c))"
    define m1 where "m1 = (if multi \<noteq> [] \<and> p \<noteq> ''#'' then acc @ multi else acc)"
    define inner where "inner = (case child_of (?h n) ''+'' of
                 None \<Rightarrow> Inr m1
               | Some sl \<Rightarrow>
                   if p \<noteq> ''+''
                   then (case match_loop ?h rest (Some sl) [] of
                           Inl e \<Rightarrow> Inl e
                         | Inr wildcardMatches \<Rightarrow> Inr (m1 @ wildcardMatches))
                   else Inr m1)"
    have rec: "\<And>sl. findMatchesByPath v rest sl = match_loop ?h rest (Some sl) []"
      using Cons.prems [of rest] by simp
    have last: "(Suc (length pre) = length (pre @ p # rest)) = (rest = [])"
      by auto
    have next': "\<And>nd acc'. outcome (traverse_loop (match_callback v (pre @ p # rest)) False (Suc (length pre)) rest nd (v, acc'))
                 = match_loop ?h rest nd acc'"
      using Cons.IH [of "pre @ [p]"] Cons.prems by simp
    have cb: "match_callback v (pre @ p # rest) (v, acc) n p (length pre) =
                (case inner of
                   Inl e \<Rightarrow> Throw e (v, m1)
                 | Inr m2 \<Rightarrow> Normal (v, if rest = [] then m2 @ nodeSubs else m2))"
    proof (cases "child_of (?h n) ''+''")
      case None
      then show ?thesis
        by (simp add: match_callback_def Let_def last inner_def m1_def multi_def nodeSubs_def)
    next
      case sl: (Some sl)
      show ?thesis
      proof (cases "p = ''+''")
        case True
        then show ?thesis
          using sl
          by (simp add: match_callback_def Let_def last inner_def m1_def multi_def nodeSubs_def)
      next
        case False
        then show ?thesis
          using sl
          by (cases "match_loop ?h rest (Some sl) []")
             (simp_all add: match_callback_def Let_def last inner_def m1_def multi_def
                nodeSubs_def rec)
      qed
    qed
    have ml: "match_loop ?h (p # rest) (Some n) acc =
                (case inner of
                   Inl e \<Rightarrow> Inl e
                 | Inr m2 \<Rightarrow>
                     (case children (?h n) of
                        None \<Rightarrow> Inl TypeError
                      | Some cs \<Rightarrow> match_loop ?h rest (map_of cs p)
                                    (if rest = [] then m2 @ nodeSubs else m2)))"
      unfolding inner_def m1_def multi_def nodeSubs_def by (simp add: Let_def)
    show ?thesis
    proof (cases inner)
      case (Inl e)
      then show ?thesis unfolding Some ml by (simp add: cb)
    next
      case (Inr m2)
      show ?thesis
      proof (cases "children (?h n)")
        case None
        then show ?thesis unfolding Some ml using Inr by (simp add: cb)
      next
        case cs: (Some cs)
        then show ?thesis unfolding Some ml using Inr by (simp add: cb next')
      qed
    qed
  qed
qed

lemma findMatchesByPath_loop:
  "findMatchesByPath v ps a = match_loop (cells v) ps (Some a) []"
proof (induction "length ps" arbitrary: ps a rule: less_induct)
  case less
  have "outcome (traverse_loop (match_callback v ([] @ ps)) False (length ([] :: string list)) ps
          (Some a) (v, [])) = match_loop (cells v) ps (Some a) []"
    by (rule match_traverse_loop) (use less in simp)
  then show ?case
    by (simp add: findMatchesByPath_traverse traverse_def outcome_def)
qed

lemma findMatches_loop:
  "findMatches topic v = match_loop (cells v) (topicToPath topic) (Some (subscriptionTree v)) []"
  by (simp add: findMatches_def findMatchesByPath_loop)

lemma findMatches_same_tree:
  assumes "cells v' = cells v" and "subscriptionTree v' = subscriptionTree v"
  shows "findMatches topic v' = findMatches topic v"
  by (simp add: findMatches_loop assms)

lemma prepend_simps [simp]:
  "prepend acc (Inl e) = Inl e" "prepend acc (Inr l) = Inr (acc @ l)"
  by (simp_all add: prepend_def)

lemma prepend_prepend [simp]: "prepend a (prepend b r) = prepend (a @ b) r"
  by (cases r) simp_all

lemma prepend_Nil [simp]: "prepend [] r = r"
  by (cases r) simp_all

lemma match_loop_acc:
  "match_loop h ps node acc = prepend acc (match_loop h ps node [])"
proof (induction ps arbitrary: node acc)
  case Nil
  then show ?case by simp
next
  case (Cons p rest)
  show ?case
  proof (cases node)
    case None
    then show ?thesis by simp
  next
    case (Some n)
    define multi where "multi = (case child_of (h n) ''#'' of
                              None \<Rightarrow> []
                            | Some m \<Rightarrow> subscriptions_or_empty (h m))"
    define nodeSubs where "nodeSubs = (case child_of (h n) p of
                                 None \<Rightarrow> []
                               | Some c \<Rightarrow> subscriptions_or_empty (h c))"
    define m1 where "m1 = (if multi \<noteq> [] \<and> p \<noteq> ''#'' then multi else [])"
    define inner where "inner = (case child_of (h n) ''+'' of
                 None \<Rightarrow> Inr m1
               | Some sl \<Rightarrow>
                   if p \<noteq> ''+''
                   then prepend m1 (match_loop h rest (Some sl) [])
                   else Inr m1)"
    have ml: "match_loop h (p # rest) (Some n) acc' =
                (case prepend acc' inner of
                   Inl e \<Rightarrow> Inl e
                 | Inr m2 \<Rightarrow>
                     (case children (h n) of
                        None \<Rightarrow> Inl TypeError
                      | Some cs \<Rightarrow> match_loop h rest (map_of cs p)
                                    (if rest = [] then m2 @ nodeSubs else m2)))" for acc'
    proof (cases "child_of (h n) ''+''")
      case None
      then show ?thesis
        unfolding inner_def m1_def multi_def nodeSubs_def
        by (simp add: Let_def cong: option.case_cong)
    next
      case sl: (Some sl)
      then show ?thesis
        unfolding inner_def m1_def multi_def nodeSubs_def
        by (cases "match_loop h rest (Some sl) []")
           (simp_all add: Let_def cong: option.case_cong)
    qed
    show ?thesis
    proof (cases inner)
      case (Inl e)
      then show ?thesis unfolding Some ml [of acc] ml [of "[]"] by simp
    next
      case (Inr m2)
      show ?thesis
      proof (cases "children (h n)")
        case None
        then show ?thesis unfolding Some ml [of acc] ml [of "[]"] using Inr by simp
      next
        case cs: (Some cs)
        let ?m3 = "if rest = [] then m2 @ nodeSubs else m2"
        have "match_loop h (p # rest) (Some n) acc = match_loop h rest (map_of cs p) (acc @ ?m3)"
          unfolding ml [of acc] using Inr cs by simp
        also have "\<dots> = prepend (acc @ ?m3) (match_loop h rest (map_of cs p) [])"
          by (rule Cons.IH)
        also have "\<dots> = prepend acc (match_loop h rest (map_of cs p) ?m3)"
          using Cons.IH [of "map_of cs p" ?m3] by simp
        also have "\<dots> = prepend acc (match_loop h (p # rest) (Some n) [])"
          unfolding ml [of "[]"] using Inr cs by simp
        finally show ?thesis unfolding Some .
      qed
    qed
  qed
qed

lemma match_loop_Cons:
  "match_loop h (p # rest) (Some n) acc =
     (case callback_matches h p rest n acc of
        Inl e \<Rightarrow> Inl e
      | Inr m3 \<Rightarrow>
          (case children (h n) of
             None \<Rightarrow> Inl TypeError
           | Some cs \<Rightarrow> match_loop h rest (map_of cs p) m3))"
proof -
  define multi where "multi = (case child_of (h n) ''#'' of
                              None \<Rightarrow> []
                            | Some m \<Rightarrow> subscriptions_or_empty (h m))"
  define nodeSubs where "nodeSubs = (case child_of (h n) p of
                                 None \<Rightarrow> []
                               | Some c \<Rightarrow> subscriptions_or_empty (h c))"
  define m1 where "m1 = (if multi \<noteq> [] \<and> p \<noteq> ''#'' then acc @ multi else acc)"
  define inner where "inner = (case child_of (h n) ''+'' of
                 None \<Rightarrow> Inr m1
               | Some sl \<Rightarrow>
                   if p \<noteq> ''+''
                   then (case match_loop h rest (Some sl) [] of
                           Inl e \<Rightarrow> Inl e
                         | Inr wildcardMatches \<Rightarrow> Inr (m1 @ wildcardMatches))
                   else Inr m1)"
  have l: "match_loop h (p # rest) (Some n) acc =
             (case inner of
                Inl e \<Rightarrow> Inl e
              | Inr m2 \<Rightarrow>
                  (case children (h n) of
                     None \<Rightarrow> Inl TypeError
                   | Some cs \<Rightarrow> match_loop h rest (map_of cs p)
                                 (if rest = [] then m2 @ nodeSubs else m2)))"
    unfolding inner_def m1_def multi_def nodeSubs_def by (simp add: Let_def)
  have r: "callback_matches h p rest n acc =
             (case inner of
                Inl e \<Rightarrow> Inl e
              | Inr m2 \<Rightarrow> Inr (if rest = [] then m2 @ nodeSubs else m2))"
    unfolding callback_matches_def inner_def m1_def multi_def nodeSubs_def by (simp add: Let_def)
  show ?thesis
    unfolding l r by (cases inner) simp_all
qed

lemma callback_matches_Inr:
  assumes "callback_matches h p rest n acc = Inr m3"
  shows "set acc \<subseteq> set m3"
    and "child_of (h n) ''#'' = Some m \<Longrightarrow> p \<noteq> ''#'' \<Longrightarrow>
         set (subscriptions_or_empty (h m)) \<subseteq> set m3"
    and "child_of (h n) ''+'' = Some sl \<Longrightarrow> p \<noteq> ''+'' \<Longrightarrow>
         \<exists>w. match_loop h rest (Some sl) [] = Inr w \<and> set w \<subseteq> set m3"
    and "rest = [] \<Longrightarrow> child_of (h n) p = Some c \<Longrightarrow>
         set (subscriptions_or_empty (h c)) \<subseteq> set m3"
proof -
  show "set acc \<subseteq> set m3"
    using assms
    by (auto simp: callback_matches_def Let_def split: option.splits sum.splits if_splits)
  show "set (subscriptions_or_empty (h m)) \<subseteq> set m3"
    if "child_of (h n) ''#'' = Some m" "p \<noteq> ''#''"
    using assms that
    by (auto simp: callback_matches_def Let_def split: option.splits sum.splits if_splits)
  show "\<exists>w. match_loop h rest (Some sl) [] = Inr w \<and> set w \<subseteq> set m3"
    if "child_of (h n) ''+'' = Some sl" "p \<noteq> ''+''"
    using assms that
    by (auto simp: callback_matches_def Let_def split: option.splits sum.splits if_splits)
  show "set (subscriptions_or_empty (h c)) \<subseteq> set m3"
    if "rest = []" "child_of (h n) p = Some c"
    using assms that
    by (auto simp: callback_matches_def Let_def split: option.splits sum.splits if_splits)
qed

lemma match_loop_grows:
  assumes "match_loop h ps node acc = Inr r"
  shows "set acc \<subseteq> set r"
  using assms match_loop_acc [of h ps node acc]
  by (cases "match_loop h ps node []") auto

lemma match_loop_ConsE:
  assumes "match_loop h (p # rest) (Some n) acc = Inr r"
  obtains m3 cs where "callback_matches h p rest n acc = Inr m3"
    and "children (h n) = Some cs" and "match_loop h rest (map_of cs p) m3 = Inr r"
    and "set m3 \<subseteq> set r"
proof -
  from assms obtain m3 where m3: "callback_matches h p rest n acc = Inr m3"
    unfolding match_loop_Cons by (cases "callback_matches h p rest n acc") simp_all
  with assms obtain cs where cs: "children (h n) = Some cs"
    unfolding match_loop_Cons by (cases "children (h n)") simp_all
  have run: "match_loop h rest (map_of cs p) m3 = Inr r"
    using assms unfolding match_loop_Cons by (simp add: m3 cs)
  show ?thesis
    using that [OF m3 cs run match_loop_grows [OF run]] .
qed

text \<open>The three sources of a match, at a node the walk along the query path reaches.\<close>

lemma match_loop_descend:
  assumes "match_loop h (p # rest) (Some n) acc = Inr r" and "child_of (h n) p = Some c"
  shows "\<exists>acc'. match_loop h rest (Some c) acc' = Inr r"
proof -
  from assms(1) obtain m3 cs where cs: "children (h n) = Some cs"
    and run: "match_loop h rest (map_of cs p) m3 = Inr r"
    by (rule match_loop_ConsE)
  have "map_of cs p = Some c"
    using assms(2) cs by (simp add: child_of_def)
  then show ?thesis using run by auto
qed

lemma match_loop_reaches:
  assumes "walk h n pre = Some a" and "match_loop h (pre @ rest) (Some n) acc = Inr r"
  shows "\<exists>acc'. match_loop h rest (Some a) acc' = Inr r"
  using assms
proof (induction pre arbitrary: n acc)
  case Nil
  then show ?case by auto
next
  case (Cons k pre)
  from Cons.prems(1) obtain c where c: "child_of (h n) k = Some c" and w: "walk h c pre = Some a"
    by (auto split: option.splits)
  have "match_loop h (k # (pre @ rest)) (Some n) acc = Inr r"
    using Cons.prems(2) by simp
  from match_loop_descend [OF this c]
  obtain acc' where "match_loop h (pre @ rest) (Some c) acc' = Inr r" by auto
  from Cons.IH [OF w this] show ?case .
qed

lemma match_loop_multi:
  assumes "match_loop h (p # rest) (Some n) acc = Inr r"
    and "child_of (h n) ''#'' = Some m" and "p \<noteq> ''#''"
  shows "set (subscriptions_or_empty (h m)) \<subseteq> set r"
proof -
  from assms(1) obtain m3 where m3: "callback_matches h p rest n acc = Inr m3"
    and sub: "set m3 \<subseteq> set r"
    by (rule match_loop_ConsE)
  from callback_matches_Inr(2) [OF m3 assms(2,3)] sub show ?thesis by blast
qed

lemma match_loop_single:
  assumes "match_loop h (p # rest) (Some n) acc = Inr r"
    and "child_of (h n) ''+'' = Some sl" and "p \<noteq> ''+''"
  shows "\<exists>w. match_loop h rest (Some sl) [] = Inr w \<and> set w \<subseteq> set r"
proof -
  from assms(1) obtain m3 where m3: "callback_matches h p rest n acc = Inr m3"
    and sub: "set m3 \<subseteq> set r"
    by (rule match_loop_ConsE)
  from callback_matches_Inr(3) [OF m3 assms(2,3)] sub show ?thesis by blast
qed

lemma match_loop_exact:
  assumes "match_loop h ps (Some n) acc = Inr r" and "walk h n ps = Some c" and "ps \<noteq> []"
  shows "set (subscriptions_or_empty (h c)) \<subseteq> set r"
  using assms
proof (induction ps arbitrary: n acc)
  case Nil
  then show ?case by simp
next
  case (Cons p rest)
  from Cons.prems(2) obtain b where b: "child_of (h n) p = Some b" and w: "walk h b rest = Some c"
    by (auto split: option.splits)
  show ?case
  proof (cases "rest = []")
    case False
    from match_loop_descend [OF Cons.prems(1) b]
    obtain acc' where "match_loop h rest (Some b) acc' = Inr r" by auto
    from Cons.IH [OF this w False] show ?thesis .
  next
    case True
    then have bc: "b = c" using w by simp
    from Cons.prems(1) obtain m3 where m3: "callback_matches h p rest n acc = Inr m3"
      and sub: "set m3 \<subseteq> set r"
      by (rule match_loop_ConsE)
    from callback_matches_Inr(4) [OF m3 True b] sub bc show ?thesis by blast
  qed
qed

subsection \<open>Evaluation\<close>

lemmas vault_eval = findMatches_loop add_def remove_def traverse_def add_callback_def
  remove_callback_def prune_callback_def new_vault_def constructor_def empty_store_def
  empty_object_def alloc_def set_children_def set_subscriptions_def emit_def child_of_def
  subscriptions_or_empty_def children_or_empty_def topicToPath_def Let_def reset_def
  strictEquals_def


subsection \<open>The lifecycle of a topic\<close>

lemma add_reachable:
  assumes "reachable v"
  obtains v' where "add topic s v = Normal v'"
    and "add_post topic s v (subscriptionTree v) [] (topicToPath topic) v'"
  using add_ok [of v topic s] reachable_invariants [OF assms] by blast

text \<open>
  The lifecycle of a topic with two distinct handles, neither of them \<^verbatim>\<open>NaN\<close>, on a
  reachable vault in which the terminal node of the topic holds no subscription: the two
  adds and the two removes return; \<^verbatim>\<open>onTopicAdded\<close> is called by the first add and
  not by the second, \<^verbatim>\<open>onTopicRemoved\<close> by the last remove and not by the first.
\<close>

lemma lifecycle_of_comparable_handles:
  assumes "reachable v" and "plain_topic t"
    and "subs_at (cells v) (subscriptionTree v) (topicToPath t) = []"
    and "s1 \<noteq> s2" and "s1 \<noteq> NaN" and "s2 \<noteq> NaN"
  shows "\<exists>v1 v2 v3 v4.
           add t s1 v = Normal v1 \<and> add t s2 v1 = Normal v2 \<and>
           remove t s1 v2 = Normal v3 \<and> remove t s2 v3 = Normal v4 \<and>
           events v1 = events v @ [TopicAdded t] \<and> events v2 = events v1 \<and>
           events v3 = events v2 \<and> events v4 = events v3 @ [TopicRemoved t]"
proof -
  let ?r = "subscriptionTree v" and ?path = "topicToPath t"
  from add_reachable [OF assms(1), of t s1]
  obtain v1 where a1: "add t s1 v = Normal v1" and p1: "add_post t s1 v ?r [] ?path v1" .
  have r1: "subscriptionTree v1 = ?r" and e1: "events v1 = events v @ [TopicAdded t]"
    and ts1: "tree_shaped v1" and pr1: "pruned v1"
    using p1 assms(3) by (simp_all add: add_post_def)
  obtain c1 where w1: "walk (cells v1) ?r ?path = Some c1"
    and s1: "subscriptions (cells v1 c1) = Some [s1]"
    using p1 assms(3) by (auto simp: add_post_def)
  have old1: "subs_at (cells v1) (subscriptionTree v1) ?path = [s1]"
    using w1 s1 by (simp add: subs_at_def r1 subscriptions_or_empty_def)
  have reach1: "reachable v1"
    using reachable.after_add [OF assms(1,2), of s1] a1 by simp
  from add_reachable [OF reach1, of t s2]
  obtain v2 where a2: "add t s2 v1 = Normal v2"
    and p2: "add_post t s2 v1 (subscriptionTree v1) [] ?path v2" .
  have r2: "subscriptionTree v2 = ?r" and e2: "events v2 = events v1"
    and ts2: "tree_shaped v2" and pr2: "pruned v2"
    using p2 old1 r1 by (simp_all add: add_post_def)
  obtain c where w2: "walk (cells v2) ?r ?path = Some c"
    and s2: "subscriptions (cells v2 c) = Some [s1, s2]"
    using p2 old1 r1 by (auto simp: add_post_def)
  let ?u = "unsubscribe t s1 c v2"
  from remove_resolved [OF ts2 pr2, of t c s1] w2 r2
  obtain v3 where rm3: "remove t s1 v2 = Normal v3" and q3: "prune_post ?u c v3" by auto
  have su: "subscriptions (cells ?u c) = Some [s2]"
    using s2 assms(4,5) by (simp add: subscriptions_unsubscribe subscriptions_or_empty_def strictEquals_def)
  have eu: "events ?u = events v2"
    using s2 su by (simp add: events_unsubscribe subscriptions_or_empty_def)
  have "\<not> is_empty_node (cells ?u c)"
    using su by (simp add: is_empty_node_def subscriptions_or_empty_def)
  then have c3: "cells v3 = cells ?u"
    using q3 by (simp add: prune_post_def)
  have r3: "subscriptionTree v3 = ?r" and e3: "events v3 = events v2"
    and ts3: "tree_shaped v3" and pr3: "pruned v3"
    using q3 eu r2 by (simp_all add: prune_post_def)
  have w3: "walk (cells v3) (subscriptionTree v3) ?path = Some c"
    using w2 by (simp add: c3 r3)
  have s3: "subscriptions (cells v3 c) = Some [s2]"
    using su by (simp add: c3)
  let ?u' = "unsubscribe t s2 c v3"
  from remove_resolved [OF ts3 pr3 w3, of s2]
  obtain v4 where rm4: "remove t s2 v3 = Normal v4" and q4: "prune_post ?u' c v4" by auto
  have su': "subscriptions (cells ?u' c) = Some []"
    using s3 assms(6) by (simp add: subscriptions_unsubscribe subscriptions_or_empty_def strictEquals_def)
  have "events ?u' = events v3 @ [TopicRemoved t]"
    using s3 su' by (simp add: events_unsubscribe subscriptions_or_empty_def)
  then have e4: "events v4 = events v3 @ [TopicRemoved t]"
    using q4 by (simp add: prune_post_def)
  show ?thesis
    using a1 a2 rm3 rm4 e1 e2 e3 e4 by blast
qed

subsection \<open>Removing a handle that is not registered\<close>

text \<open>
  Removing a handle that is not in the subscription list of the terminal node, on a
  reachable vault: a call that returns leaves every object of the tree as it was, so
  every \<^verbatim>\<open>findMatches\<close> result is the same before and after; it records at most the
  diagnostic, and \<^verbatim>\<open>onTopicRemoved\<close> exactly when the terminal node exists and
  already holds an empty \<^verbatim>\<open>subscriptions\<close> array.
\<close>

lemma remove_of_absent_handle:
  assumes reach: "reachable v" and "plain_topic t"
    and absent_s: "s \<notin> set (subs_at (cells v) (subscriptionTree v) (topicToPath t))"
    and rm: "remove t s v = Normal v'"
  shows "cells v' = cells v \<and> subscriptionTree v' = subscriptionTree v \<and>
         (\<forall>t'. findMatches t' v' = findMatches t' v) \<and>
         (\<exists>diag. set diag \<subseteq> {ConsoleError t s} \<and>
            events v' = events v @ diag @
              (if \<exists>c. walk (cells v) (subscriptionTree v) (topicToPath t) = Some c \<and>
                      subscriptions (cells v c) = Some []
               then [TopicRemoved t] else []))"
proof (cases "walk (cells v) (subscriptionTree v) (topicToPath t)")
  case None
  have inv: "tree_shaped v" using reachable_invariants [OF reach] by simp
  from remove_unresolved [OF None tree_shapedD(4) [OF inv order_refl], of s] rm
  have same: "cells v' = cells v" "subscriptionTree v' = subscriptionTree v"
    and ev: "events v' = events v \<or> events v' = events v @ [ConsoleError t s]"
    by auto
  have fm: "\<forall>t'. findMatches t' v' = findMatches t' v"
    using findMatches_same_tree [OF same] by blast
  from ev have "\<exists>diag. set diag \<subseteq> {ConsoleError t s} \<and>
            events v' = events v @ diag @
              (if \<exists>c. walk (cells v) (subscriptionTree v) (topicToPath t) = Some c \<and>
                      subscriptions (cells v c) = Some []
               then [TopicRemoved t] else [])"
  proof
    assume "events v' = events v"
    then have "set [] \<subseteq> {ConsoleError t s} \<and> events v' = events v @ [] @
              (if \<exists>c. walk (cells v) (subscriptionTree v) (topicToPath t) = Some c \<and>
                      subscriptions (cells v c) = Some []
               then [TopicRemoved t] else [])"
      using None by simp
    then show ?thesis by blast
  next
    assume "events v' = events v @ [ConsoleError t s]"
    then have "set [ConsoleError t s] \<subseteq> {ConsoleError t s} \<and>
            events v' = events v @ [ConsoleError t s] @
              (if \<exists>c. walk (cells v) (subscriptionTree v) (topicToPath t) = Some c \<and>
                      subscriptions (cells v c) = Some []
               then [TopicRemoved t] else [])"
      using None by simp
    then show ?thesis by blast
  qed
  with same fm show ?thesis by blast
next
  case (Some c)
  have inv: "tree_shaped v" "pruned v" using reachable_invariants [OF reach] by simp_all
  let ?u = "unsubscribe t s c v"
  from remove_resolved [OF inv Some, of s] rm
  have q: "prune_post ?u c v'" by auto
  have absent: "s \<notin> set (subscriptions_or_empty (cells v c))"
    using absent_s Some by (simp add: subs_at_def)
  have cu: "cells ?u = cells v"
    using absent by (rule cells_unsubscribe_absent)
  have "c \<noteq> subscriptionTree v"
    using tree_shapedD(1) [OF inv(1) Some, of "[]"] topicToPath_nonempty [of t] by auto
  then have "\<not> is_empty_node (cells v c)"
    using inv(2) Some by (auto simp: pruned_def)
  then have "cells v' = cells ?u"
    using q cu by (simp add: prune_post_def)
  then have same: "cells v' = cells v" "subscriptionTree v' = subscriptionTree v"
    using q cu by (simp_all add: prune_post_def)
  have fm: "\<forall>t'. findMatches t' v' = findMatches t' v"
    using findMatches_same_tree [OF same] by blast
  have "events v' = events ?u"
    using q by (simp add: prune_post_def)
  then have "set [ConsoleError t s] \<subseteq> {ConsoleError t s} \<and>
            events v' = events v @ [ConsoleError t s] @
              (if \<exists>c. walk (cells v) (subscriptionTree v) (topicToPath t) = Some c \<and>
                      subscriptions (cells v c) = Some []
               then [TopicRemoved t] else [])"
    using absent Some by (simp add: events_unsubscribe [of t s c v] cu)
  then have "\<exists>diag. set diag \<subseteq> {ConsoleError t s} \<and>
            events v' = events v @ diag @
              (if \<exists>c. walk (cells v) (subscriptionTree v) (topicToPath t) = Some c \<and>
                      subscriptions (cells v c) = Some []
               then [TopicRemoved t] else [])"
    by blast
  with same fm show ?thesis by blast
qed

subsection \<open>A vault with a single topic\<close>

lemma match_loop_None [simp]: "match_loop h ps None acc = Inr acc"
  by (cases ps) simp_all

lemma findMatches_childless_root:
  assumes "children (cells v (subscriptionTree v)) = Some cs"
    and "\<And>k. child_of (cells v (subscriptionTree v)) k = None"
  shows "findMatches t v = Inr []"
proof -
  obtain p rest where path: "topicToPath t = p # rest"
    using topicToPath_nonempty [of t] by (cases "topicToPath t") auto
  have "map_of cs p = None"
    using assms(2) [of p] assms(1) by (simp add: child_of_def)
  then show ?thesis
    by (simp add: findMatches_loop path Let_def assms)
qed

lemma nonempty_has_child:
  assumes "\<not> is_empty_node nd" and "subscriptions_or_empty nd = []"
  shows "\<exists>k c. child_of nd k = Some c"
proof -
  obtain cs where cs: "children nd = Some cs" "cs \<noteq> []"
    using assms by (auto simp: is_empty_node_def children_or_empty_def split: option.splits)
  then obtain k c rest where "cs = (k, c) # rest"
    by (cases cs) auto
  then have "child_of nd k = Some c"
    using cs(1) by (simp add: child_of_def)
  then show ?thesis by blast
qed

lemma no_paths_left:
  assumes ts: "tree_shaped v" and pr: "pruned v"
    and bound: "\<And>qs b. walk (cells v) (subscriptionTree v) qs = Some b \<Longrightarrow> prefix qs path"
    and nosubs: "\<And>qs b. walk (cells v) (subscriptionTree v) qs = Some b \<Longrightarrow>
                   subscriptions_or_empty (cells v b) = []"
    and ne: "qs \<noteq> []"
  shows "walk (cells v) (subscriptionTree v) qs = None"
proof (rule ccontr)
  let ?r = "subscriptionTree v"
  assume "walk (cells v) ?r qs \<noteq> None"
  then obtain b where b: "walk (cells v) ?r qs = Some b" by auto
  have deeper: "\<exists>qs' b'. qs' \<noteq> [] \<and> walk (cells v) ?r qs' = Some b' \<and> n \<le> length qs'" for n
  proof (induction n)
    case 0
    show ?case using b ne by blast
  next
    case (Suc n)
    then obtain qs' b' where q: "qs' \<noteq> []" "walk (cells v) ?r qs' = Some b'" "n \<le> length qs'"
      by blast
    have "b' \<noteq> ?r"
      using tree_shapedD(1) [OF ts q(2), of "[]"] q(1) by auto
    then have "\<not> is_empty_node (cells v b')"
      using pr q(2) by (auto simp: pruned_def)
    from nonempty_has_child [OF this nosubs [OF q(2)]]
    obtain k c where "child_of (cells v b') k = Some c" by blast
    then have "walk (cells v) ?r (qs' @ [k]) = Some c"
      using q(2) by (simp add: walk_snoc)
    moreover have "Suc n \<le> length (qs' @ [k])" using q(3) by simp
    ultimately show ?case by blast
  qed
  from deeper [of "Suc (length path)"]
  obtain qs' b' where "walk (cells v) ?r qs' = Some b'" "Suc (length path) \<le> length qs'"
    by blast
  then show False
    using bound [of qs' b'] prefix_length_le [of qs' path] by simp
qed

text \<open>Two adds of one handle to one topic of a fresh vault, and one remove.\<close>

lemma sole_topic_scenario:
  fixes s :: "'s handle"
  assumes plain: "plain_topic t" and comparable: "s \<noteq> NaN"
  shows "\<exists>v1 v2 v3. add t s (new_vault :: 's handle vault) = Normal v1 \<and> add t s v1 = Normal v2 \<and>
           remove t s v2 = Normal v3 \<and>
           subs_at (cells v2) (subscriptionTree v2) (topicToPath t) = [s, s] \<and>
           findMatches t v3 = Inr [] \<and>
           events v3 = [TopicAdded t, TopicRemoved t]"
proof -
  let ?v0 = "new_vault :: 's handle vault" and ?path = "topicToPath t"
  let ?r = "subscriptionTree ?v0"
  have reach0: "reachable ?v0" by (rule reachable.start)
  have cell0: "cells ?v0 ?r = empty_object"
    by (simp add: vault_eval)
  have w0: "walk (cells ?v0) ?r qs = (if qs = [] then Some ?r else None)" for qs
    using cell0 by (rule walk_from_empty)
  have e0: "events ?v0 = []" by (simp add: vault_eval)
  have old0: "subs_at (cells ?v0) ?r qs = []" for qs
    using cell0 by (simp add: subs_at_def w0 subscriptions_or_empty_def empty_object_def)
  from add_reachable [OF reach0, of t s]
  obtain v1 where a1: "add t s ?v0 = Normal v1" and p1: "add_post t s ?v0 ?r [] ?path v1" .
  have r1: "subscriptionTree v1 = ?r" and e1: "events v1 = [TopicAdded t]"
    using p1 by (simp_all add: add_post_def old0 e0)
  have paths1: "walk (cells ?v0) ?r qs = Some b \<or> (strict_prefix [] qs \<and> prefix qs ?path)"
    if "walk (cells v1) ?r qs = Some b" for qs b
    using p1 that unfolding add_post_def by simp
  have b1: "prefix qs ?path" if "walk (cells v1) ?r qs = Some b" for qs b
    using paths1 [OF that] by (auto simp: w0 split: if_splits)
  have n1: "subs_at (cells v1) ?r qs = []" if "qs \<noteq> ?path" for qs
    using p1 that unfolding add_post_def by (simp add: old0)
  obtain c1 where w1: "walk (cells v1) ?r ?path = Some c1"
    and s1: "subscriptions (cells v1 c1) = Some [s]"
    using p1 unfolding add_post_def by (auto simp: old0)
  have old1: "subs_at (cells v1) (subscriptionTree v1) ?path = [s]"
    using w1 s1 by (simp add: subs_at_def r1 subscriptions_or_empty_def)
  have reach1: "reachable v1"
    using reachable.after_add [OF reach0 plain, of s] a1 by simp
  from add_reachable [OF reach1, of t s]
  obtain v2 where a2: "add t s v1 = Normal v2"
    and p2: "add_post t s v1 (subscriptionTree v1) [] ?path v2" .
  have r2: "subscriptionTree v2 = ?r" and e2: "events v2 = [TopicAdded t]"
    and ts2: "tree_shaped v2" and pr2: "pruned v2"
    and ch2: "children (cells v2 ?r) \<noteq> None"
    using p2 old1 r1 e1 by (simp_all add: add_post_def)
  have paths2: "walk (cells v1) ?r qs = Some b \<or> (strict_prefix [] qs \<and> prefix qs ?path)"
    if "walk (cells v2) ?r qs = Some b" for qs b
    using p2 that unfolding add_post_def r1 by simp
  have b2: "prefix qs ?path" if "walk (cells v2) ?r qs = Some b" for qs b
    using paths2 [OF that] b1 by auto
  have n2: "subs_at (cells v2) ?r qs = []" if "qs \<noteq> ?path" for qs
    using p2 that n1 unfolding add_post_def r1 by simp
  obtain c where w2: "walk (cells v2) ?r ?path = Some c"
    and s2: "subscriptions (cells v2 c) = Some [s, s]"
    using p2 old1 r1 by (auto simp: add_post_def)
  have old2: "subs_at (cells v2) (subscriptionTree v2) ?path = [s, s]"
    using w2 s2 by (simp add: subs_at_def r2 subscriptions_or_empty_def)
  let ?u = "unsubscribe t s c v2"
  from remove_resolved [OF ts2 pr2, of t c s] w2 r2
  obtain v3 where rm3: "remove t s v2 = Normal v3" and q3: "prune_post ?u c v3" by auto
  have su: "subscriptions (cells ?u c) = Some []"
    using s2 comparable
    by (simp add: subscriptions_unsubscribe subscriptions_or_empty_def strictEquals_def)
  have "events ?u = [TopicAdded t, TopicRemoved t]"
    using s2 su e2 by (simp add: events_unsubscribe subscriptions_or_empty_def)
  then have e3: "events v3 = [TopicAdded t, TopicRemoved t]"
    using q3 by (simp add: prune_post_def)
  have r3: "subscriptionTree v3 = ?r" and ts3: "tree_shaped v3" and pr3: "pruned v3"
    using q3 r2 by (simp_all add: prune_post_def)
  have mono: "walk (cells v2) ?r qs = Some b" if "walk (cells v3) ?r qs = Some b" for qs b
    using q3 that unfolding prune_post_def by (simp add: r2)
  have subs3: "subscriptions (cells v3 b) = subscriptions (cells ?u b)" for b
    using q3 unfolding prune_post_def by blast
  have nosubs3: "subscriptions_or_empty (cells v3 b) = []"
    if "walk (cells v3) (subscriptionTree v3) qs = Some b" for qs b
  proof (cases "qs = ?path")
    case True
    then have "b = c" using mono that w2 by (simp add: r3)
    then show ?thesis using su by (simp add: subs3 subscriptions_or_empty_def)
  next
    case False
    have wb: "walk (cells v2) ?r qs = Some b" using mono that by (simp add: r3)
    then have "b \<noteq> c"
      using tree_shapedD(1) [OF ts2, of qs c ?path] w2 False by (auto simp: r2)
    moreover have "subscriptions_or_empty (cells v2 b) = []"
      using n2 [OF False] wb by (simp add: subs_at_def)
    ultimately show ?thesis
      by (simp add: subs3 subscriptions_unsubscribe subscriptions_or_empty_def)
  qed
  have bound3: "prefix qs ?path" if "walk (cells v3) (subscriptionTree v3) qs = Some b" for qs b
    using b2 mono that by (simp add: r3)
  have gone: "walk (cells v3) (subscriptionTree v3) qs = None" if "qs \<noteq> []" for qs
    using no_paths_left [OF ts3 pr3 bound3 nosubs3 that] .
  have "child_of (cells v3 (subscriptionTree v3)) k = None" for k
    using gone [of "[k]"] by (simp split: option.splits)
  moreover obtain cs where "children (cells v3 (subscriptionTree v3)) = Some cs"
    using q3 ch2 unfolding prune_post_def by (auto simp: r3)
  ultimately have fm: "findMatches t v3 = Inr []"
    using findMatches_childless_root by blast
  show ?thesis
    using a1 a2 rm3 old2 fm e3 by blast
qed

subsection \<open>Removing every occurrence of a handle\<close>

text \<open>
  One \<^verbatim>\<open>remove(t, s)\<close> with a handle other than \<^verbatim>\<open>NaN\<close> deletes every occurrence
  of \<open>s\<close> from the terminal node's list.
\<close>

lemma remove_deletes_every_comparable_occurrence:
  assumes "reachable v" and "plain_topic t"
    and "walk (cells v) (subscriptionTree v) (topicToPath t) = Some c" and "s \<noteq> NaN"
  shows "s \<notin> set (subscriptions_or_empty (cells (state_of (remove t s v)) c))"
proof -
  have inv: "tree_shaped v" "pruned v" using reachable_invariants [OF assms(1)] by simp_all
  from remove_resolved [OF inv assms(3), of s]
  obtain v' where rm: "remove t s v = Normal v'" and q: "prune_post (unsubscribe t s c v) c v'"
    by auto
  have "subscriptions (cells v' c) = subscriptions (cells (unsubscribe t s c v) c)"
    using q unfolding prune_post_def by blast
  then have "s \<notin> set (subscriptions_or_empty (cells v' c))"
    using assms(4)
    by (auto simp: subscriptions_unsubscribe subscriptions_or_empty_def strictEquals_def
        split: option.splits)
  then show ?thesis
    using rm by simp
qed

subsection \<open>Wildcards\<close>

text \<open>
  The multi-level wildcard in general: when the walk along the query reaches a node that
  has a \<^verbatim>\<open>#\<close> child and the query segment at that position is not the token
  \<^verbatim>\<open>#\<close>, every subscription of that child is in the result, if \<^verbatim>\<open>findMatches\<close>
  returns one.
\<close>

lemma multi_level_wildcard_appended:
  assumes "topicToPath topic = pre @ p # rest"
    and "walk (cells v) (subscriptionTree v) pre = Some n"
    and "child_of (cells v n) ''#'' = Some m"
    and "p \<noteq> ''#''"
    and "findMatches topic v = Inr r"
  shows "set (subscriptions_or_empty (cells v m)) \<subseteq> set r"
proof -
  have "match_loop (cells v) (pre @ p # rest) (Some (subscriptionTree v)) [] = Inr r"
    using assms(1,5) by (simp add: findMatches_loop)
  from match_loop_reaches [OF assms(2) this]
  obtain acc where "match_loop (cells v) (p # rest) (Some n) acc = Inr r" by blast
  from match_loop_multi [OF this assms(3,4)]
  show ?thesis .
qed

text \<open>
  The single-level wildcard in general: when the walk along the query reaches a node
  that has a \<^verbatim>\<open>+\<close> child and the query segment at that position is not the token
  \<^verbatim>\<open>+\<close>, the matcher is run on the remaining segments from that child, and
  everything it returns is in the result, if \<^verbatim>\<open>findMatches\<close> returns one.
\<close>

lemma single_level_wildcard_continues:
  assumes "topicToPath topic = pre @ p # rest"
    and "walk (cells v) (subscriptionTree v) pre = Some n"
    and "child_of (cells v n) ''+'' = Some sl"
    and "p \<noteq> ''+''"
    and "findMatches topic v = Inr r"
  shows "\<exists>w. findMatchesByPath v rest sl = Inr w \<and> set w \<subseteq> set r"
proof -
  have "match_loop (cells v) (pre @ p # rest) (Some (subscriptionTree v)) [] = Inr r"
    using assms(1,5) by (simp add: findMatches_loop)
  from match_loop_reaches [OF assms(2) this]
  obtain acc where "match_loop (cells v) (p # rest) (Some n) acc = Inr r" by blast
  from match_loop_single [OF this assms(3,4)]
  show ?thesis
    by (simp add: findMatchesByPath_loop)
qed

section \<open>The claims\<close>

subsection \<open>C1: findMatches on a vault without registrations\<close>

text \<open>
  C1. The claim: on a vault on which no add has succeeded (freshly constructed, or just
  reset) \<^verbatim>\<open>findMatches\<close> returns the empty sequence for every topic. In the code the
  root is then \<^verbatim>\<open>{}\<close>, the path has at least one segment, and after the callback
  \<^verbatim>\<open>traverse\<close> reads \<^verbatim>\<open>node.children[pathElement]\<close> on the root: the call throws
  a TypeError for every topic instead of returning.
\<close>

theorem findMatches_fresh_throws:
  "findMatches t (new_vault :: 's vault) = Inl TypeError
   \<and> findMatches t (reset v) = Inl TypeError"
  by (simp add: findMatches_def findMatchesByPath_no_children new_vault_root reset_root
      topicToPath_nonempty)

subsection \<open>C2: operations that throw\<close>

text \<open>
  C2. The claim: no public operation throws, for any topic, in any reachable state; a
  downward traversal that finds no child stops silently. \<^verbatim>\<open>traverse\<close> does stop
  when \<^verbatim>\<open>node.children[pathElement]\<close> is \<^verbatim>\<open>undefined\<close>, but it evaluates that
  expression on every node it visits, and a node that was never given a child has no
  \<^verbatim>\<open>children\<close> object: \<^verbatim>\<open>remove\<close> on a fresh vault throws for every topic, and
  \<^verbatim>\<open>findMatches\<close> and \<^verbatim>\<open>remove\<close> throw on a topic that extends a registered one;
  \<^verbatim>\<open>findMatches("a/b/c")\<close> throws when \<^verbatim>\<open>a/b/c\<close> and \<^verbatim>\<open>a/+\<close> are both
  registered.
\<close>

theorem traversal_past_leaf_throws:
  fixes s :: "'s handle"
  shows "(\<exists>v'. remove t s (new_vault :: 's handle vault) = Throw TypeError v') \<and>
         findMatches ''a/b'' (state_of (add ''a'' s new_vault)) = Inl TypeError \<and>
         (\<exists>v'. remove ''a/b'' s (state_of (add ''a'' s new_vault)) = Throw TypeError v') \<and>
         findMatches ''a/b/c'' (state_of (add ''a/+'' s2 (state_of (add ''a/b/c'' s new_vault))))
           = Inl TypeError"
proof -
  let ?v = "new_vault :: 's handle vault"
  obtain p rest where path: "topicToPath t = p # rest"
    using topicToPath_nonempty [of t] by (cases "topicToPath t") auto
  have root: "cells ?v (subscriptionTree ?v) = empty_object"
    by (simp add: vault_eval)
  have absent: "child_of (cells ?v (subscriptionTree ?v)) p = None"
    by (simp add: root child_of_def empty_object_def)
  define v1 where "v1 = (if Suc 0 = length (p # rest)
                         then emit (ConsoleError t s) (snd (alloc empty_object ?v))
                         else snd (alloc empty_object ?v))"
  have cb: "remove_callback t s (p # rest) (?v, None) (subscriptionTree ?v) p 0
              = Normal (v1, Some (fresh ?v))"
    unfolding v1_def by (rule remove_callback_absent [OF absent])
  have "cells v1 = (cells ?v)(fresh ?v := empty_object)"
    by (simp add: v1_def alloc_def)
  then have "children (cells v1 (subscriptionTree ?v)) = None"
    using root by (simp add: empty_object_def)
  then have "traverse (topicToPath t) (remove_callback t s (topicToPath t)) (subscriptionTree ?v)
               False (?v, None) = Throw TypeError (v1, Some (fresh ?v))"
    unfolding traverse_def path by (simp add: cb)
  then have 1: "\<exists>v'. remove t s ?v = Throw TypeError v'"
    by (simp add: remove_def Let_def)
  have 2: "findMatches ''a/b'' (state_of (add ''a'' s new_vault)) = Inl TypeError"
    by (simp add: vault_eval)
  have 3: "\<exists>v'. remove ''a/b'' s (state_of (add ''a'' s new_vault)) = Throw TypeError v'"
    by (simp add: vault_eval)
  have 4: "findMatches ''a/b/c'' (state_of (add ''a/+'' s2 (state_of (add ''a/b/c'' s new_vault))))
           = Inl TypeError"
    by (simp add: vault_eval)
  from 1 2 3 4 show ?thesis by blast
qed

subsection \<open>C3: exactly-once lifecycle notification\<close>

text \<open>
  C3. The claim: for every topic and two distinct handles, the two adds invoke
  \<^verbatim>\<open>onTopicAdded\<close> exactly once and the two removes invoke \<^verbatim>\<open>onTopicRemoved\<close>
  exactly once, in the last remove. With the handles \<^verbatim>\<open>NaN\<close> and \<open>x\<close> on a fresh vault the four
  calls return and \<^verbatim>\<open>onTopicRemoved\<close> is never invoked: \<^verbatim>\<open>includes\<close> finds
  \<^verbatim>\<open>NaN\<close> in the array, the filter \<^verbatim>\<open>sub !== subscription\<close> keeps every entry, so
  the first remove changes nothing, the second leaves \<^verbatim>\<open>[NaN]\<close>, and
  \<^verbatim>\<open>findMatches\<close> still returns that entry. With the handles \<open>1\<close> and \<open>2\<close> the
  same four calls notify as claimed.
\<close>

theorem lifecycle_lost_for_NaN:
  "(\<exists>v1 v2 v3 v4.
      add ''t'' NaN (new_vault :: 's handle vault) = Normal v1 \<and>
      add ''t'' (Value x) v1 = Normal v2 \<and>
      remove ''t'' NaN v2 = Normal v3 \<and>
      remove ''t'' (Value x) v3 = Normal v4 \<and>
      events v1 = [TopicAdded ''t''] \<and> events v2 = events v1 \<and>
      events v3 = events v2 \<and> events v4 = events v3 \<and>
      findMatches ''t'' v4 = Inr [NaN]) \<and>
   (\<exists>v1 v2 v3 v4.
      add ''t'' (Value 1) (new_vault :: nat handle vault) = Normal v1 \<and>
      add ''t'' (Value 2) v1 = Normal v2 \<and>
      remove ''t'' (Value 1) v2 = Normal v3 \<and>
      remove ''t'' (Value 2) v3 = Normal v4 \<and>
      events v1 = [TopicAdded ''t''] \<and> events v2 = events v1 \<and>
      events v3 = events v2 \<and> events v4 = events v3 @ [TopicRemoved ''t''])"
  by (simp add: vault_eval)

subsection \<open>C4: pruning invariant\<close>




subsection \<open>C5: multi-level wildcard\<close>

text \<open>
  C5. Multi-level wildcard: with \<^verbatim>\<open>a/#\<close> registered for \<open>S\<close>, and \<open>S\<close> nowhere
  else, \<^verbatim>\<open>findMatches("a/b")\<close> and \<^verbatim>\<open>findMatches("a/b/c/d")\<close> contain \<open>S\<close> and
  \<^verbatim>\<open>findMatches("z/b")\<close> does not. When \<^verbatim>\<open>a/#\<close> is the only registration the three
  calls return \<open>[S]\<close>, \<open>[S]\<close> and the empty list. When \<^verbatim>\<open>a/b\<close> is registered as
  well, for another handle, \<^verbatim>\<open>findMatches("a/b/c/d")\<close> does not return: the callback
  has appended \<open>S\<close> at the node of \<^verbatim>\<open>a\<close>, the traversal steps to the node of
  \<^verbatim>\<open>a/b\<close>, which has no \<^verbatim>\<open>children\<close>, and the read
  \<^verbatim>\<open>node.children[pathElement]\<close> there throws a TypeError.
\<close>

theorem multi_level_wildcard_sibling_throws:
  "findMatches ''a/b/c/d'' (state_of (add ''a/b'' s2 (state_of (add ''a/#'' S new_vault))))
     = Inl TypeError \<and>
   findMatches ''a/b'' (state_of (add ''a/b'' s2 (state_of (add ''a/#'' S new_vault))))
     = Inr [S, s2] \<and>
   findMatches ''a/b'' (state_of (add ''a/#'' S new_vault)) = Inr [S] \<and>
   findMatches ''a/b/c/d'' (state_of (add ''a/#'' S new_vault)) = Inr [S] \<and>
   findMatches ''z/b'' (state_of (add ''a/#'' S new_vault)) = Inr []"
  by (simp add: vault_eval)

subsection \<open>C6: single-level wildcard\<close>

text \<open>
  C6. Single-level wildcard: with \<^verbatim>\<open>a/+/c\<close> registered for \<open>S\<close>, and \<open>S\<close> nowhere
  else, \<^verbatim>\<open>findMatches("a/x/c")\<close> and \<^verbatim>\<open>findMatches("a/y/c")\<close> contain \<open>S\<close> and
  \<^verbatim>\<open>findMatches("a/x/y/c")\<close> does not; a \<^verbatim>\<open>+\<close> child matches exactly one segment.
  When \<^verbatim>\<open>a/+/c\<close> is the only registration the three calls return \<open>[S]\<close>, \<open>[S]\<close>
  and the empty list. When \<^verbatim>\<open>a/x\<close> is registered as well, for another handle,
  \<^verbatim>\<open>findMatches("a/x/c")\<close> does not return: the traversal steps from the node of
  \<^verbatim>\<open>a\<close> to the node of \<^verbatim>\<open>a/x\<close>, which has no \<^verbatim>\<open>children\<close>, and the read
  \<^verbatim>\<open>node.children[pathElement]\<close> there throws a TypeError. And a pattern whose last
  segment is \<^verbatim>\<open>+\<close> matches nothing: with \<^verbatim>\<open>a/+\<close> registered,
  \<^verbatim>\<open>findMatches("a/b")\<close> returns the empty list, because the recursive call on the
  empty remaining path never reads the subscriptions of the \<^verbatim>\<open>+\<close> node.
\<close>

theorem single_level_wildcard_sibling_throws:
  "findMatches ''a/x/c'' (state_of (add ''a/x'' s2 (state_of (add ''a/+/c'' S new_vault))))
     = Inl TypeError \<and>
   findMatches ''a/b'' (state_of (add ''a/+'' S new_vault)) = Inr [] \<and>
   findMatches ''a/x/c'' (state_of (add ''a/+/c'' S new_vault)) = Inr [S] \<and>
   findMatches ''a/y/c'' (state_of (add ''a/+/c'' S new_vault)) = Inr [S] \<and>
   findMatches ''a/x/y/c'' (state_of (add ''a/+/c'' S new_vault)) = Inr []"
  by (simp add: vault_eval)

subsection \<open>C7: removing a handle that is not registered\<close>

text \<open>
  C7. The claim: removing a handle that is not in the terminal node's subscription set
  changes nothing, does not invoke \<^verbatim>\<open>onTopicRemoved\<close>, and reports the absence only
  by a non-fatal diagnostic. After \<^verbatim>\<open>add("a/b", 1)\<close>, \<^verbatim>\<open>add("a", 2)\<close> and
  \<^verbatim>\<open>remove("a", 2)\<close>, which has called \<^verbatim>\<open>onTopicRemoved("a")\<close>, the node of
  \<^verbatim>\<open>a\<close> is kept for its child and holds the empty array; \<^verbatim>\<open>remove("a", 3)\<close> then
  logs the diagnostic and calls \<^verbatim>\<open>onTopicRemoved("a")\<close> a second time, for a topic
  that has had no subscriber since the first call. And after \<^verbatim>\<open>add("a", 1)\<close> the call
  \<^verbatim>\<open>remove("a/b", 5)\<close>, whose terminal node does not exist, logs the diagnostic and
  then throws a TypeError.
\<close>

theorem remove_absent_handle_notifies_again:
  "Value 3 \<notin> set (subs_at
       (cells (state_of (remove ''a'' (Value 2) (state_of (add ''a'' (Value 2)
                (state_of (add ''a/b'' (Value (1 :: nat)) new_vault)))))))
       (subscriptionTree (state_of (remove ''a'' (Value 2) (state_of (add ''a'' (Value 2)
                (state_of (add ''a/b'' (Value (1 :: nat)) new_vault)))))))
       (topicToPath ''a'')) \<and>
   events (state_of (remove ''a'' (Value 2) (state_of (add ''a'' (Value 2)
              (state_of (add ''a/b'' (Value (1 :: nat)) new_vault))))))
     = [TopicAdded ''a/b'', TopicAdded ''a'', TopicRemoved ''a''] \<and>
   events (state_of (remove ''a'' (Value 3) (state_of (remove ''a'' (Value 2)
              (state_of (add ''a'' (Value 2) (state_of (add ''a/b'' (Value (1 :: nat)) new_vault))))))))
     = [TopicAdded ''a/b'', TopicAdded ''a'', TopicRemoved ''a'',
        ConsoleError ''a'' (Value 3), TopicRemoved ''a''] \<and>
   (\<exists>v'. remove ''a/b'' (Value 5) (state_of (add ''a'' (Value (1 :: nat)) new_vault))
            = Throw TypeError v' \<and>
          events v' = [TopicAdded ''a'', ConsoleError ''a/b'' (Value 5)])"
  by (simp add: vault_eval subs_at_def)

subsection \<open>C8: when onTopicRemoved is invoked\<close>




subsection \<open>C9: the tree option of the constructor\<close>

text \<open>
  C9, as stated: the constructor recognizes an option named \<^verbatim>\<open>initialTree\<close>. The
  option the constructor destructures is \<^verbatim>\<open>subscriptionTree\<close>; a tree passed as
  \<^verbatim>\<open>initialTree\<close> is ignored. With the documented tree passed under that name the
  vault's root is a new empty object, and \<^verbatim>\<open>findMatches\<close> on the topic registered in
  the tree does not return its subscription (it throws, as on every fresh vault).
\<close>

theorem initialTree_ignored_counterexample:
  "walk (cells documented_tree) 0 (topicToPath ''status/myAccountId/collections/#'') = Some 4 \<and>
   subscriptions (cells documented_tree 4) = Some [7] \<and>
   subscriptionTree (constructor [(''initialTree'', 0)] documented_tree) \<noteq> 0 \<and>
   cells (constructor [(''initialTree'', 0)] documented_tree)
     (subscriptionTree (constructor [(''initialTree'', 0)] documented_tree)) = empty_object \<and>
   findMatches ''status/myAccountId/collections/#''
     (constructor [(''initialTree'', 0)] documented_tree) \<noteq> Inr [7]"
  by (simp add: documented_tree_def documented_tree_of_def vault_eval)

text \<open>
  C9, amended. The constructor recognizes a configuration option named
  \<^verbatim>\<open>subscriptionTree\<close>: a vault constructed with a tree under that name has that tree
  as its root, objects untouched, and whenever \<^verbatim>\<open>findMatches\<close> returns on a topic
  whose path leads to a node of the tree, the result contains that node's
  subscriptions. When the option is omitted the root is a new empty object.
\<close>

theorem constructor_subscriptionTree:
  "(map_of config ''subscriptionTree'' = Some T \<longrightarrow>
      subscriptionTree (constructor config store) = T \<and>
      cells (constructor config store) = cells store \<and>
      (\<forall>topic c r. walk (cells store) T (topicToPath topic) = Some c \<longrightarrow>
          findMatches topic (constructor config store) = Inr r \<longrightarrow>
          set (subscriptions_or_empty (cells store c)) \<subseteq> set r)) \<and>
   (map_of config ''subscriptionTree'' = None \<longrightarrow>
      cells (constructor config store) (subscriptionTree (constructor config store))
        = empty_object)"
proof (intro conjI impI allI)
  assume T: "map_of config ''subscriptionTree'' = Some T"
  then show root: "subscriptionTree (constructor config store) = T"
    and cells: "cells (constructor config store) = cells store"
    by (simp_all add: constructor_def)
  fix topic c r
  assume w: "walk (cells store) T (topicToPath topic) = Some c"
    and fm: "findMatches topic (constructor config store) = Inr r"
  have "match_loop (cells store) (topicToPath topic) (Some T) [] = Inr r"
    using fm by (simp add: findMatches_loop root cells)
  from match_loop_exact [OF this w topicToPath_nonempty]
  show "set (subscriptions_or_empty (cells store c)) \<subseteq> set r" .
next
  assume "map_of config ''subscriptionTree'' = None"
  then show "cells (constructor config store) (subscriptionTree (constructor config store))
        = empty_object"
    by (simp add: constructor_def alloc_def)
qed

theorem constructor_subscriptionTree_witness:
  "map_of [(''subscriptionTree'', 0 :: nat)] ''subscriptionTree'' = Some 0 \<and>
   walk (cells documented_tree) 0 (topicToPath ''status/myAccountId/collections/#'') = Some 4 \<and>
   findMatches ''status/myAccountId/collections/#''
     (constructor [(''subscriptionTree'', 0)] documented_tree) = Inr [7] \<and>
   subscriptionTree (constructor [(''subscriptionTree'', 0)] documented_tree) = 0 \<and>
   set (subscriptions_or_empty (cells documented_tree 4)) \<subseteq> set [7 :: nat] \<and>
   map_of ([] :: (string \<times> nat) list) ''subscriptionTree'' = None \<and>
   cells (constructor [] documented_tree) (subscriptionTree (constructor [] documented_tree))
     = empty_object"
proof -
  have 1: "map_of [(''subscriptionTree'', 0 :: nat)] ''subscriptionTree'' = Some 0" by simp
  have 2: "walk (cells documented_tree) 0 (topicToPath ''status/myAccountId/collections/#'') = Some 4"
    by (simp add: documented_tree_def documented_tree_of_def vault_eval)
  have 3: "findMatches ''status/myAccountId/collections/#''
     (constructor [(''subscriptionTree'', 0)] documented_tree) = Inr [7]"
    by (simp add: documented_tree_def documented_tree_of_def vault_eval)
  have 4: "map_of ([] :: (string \<times> nat) list) ''subscriptionTree'' = None" by simp
  from constructor_subscriptionTree [of "[(''subscriptionTree'', 0)]" 0 documented_tree]
    constructor_subscriptionTree [of "[]" 0 documented_tree] 1 2 3 4
  show ?thesis by blast
qed

subsection \<open>C10: remove deletes every occurrence\<close>

text \<open>
  C10. The claim: one \<^verbatim>\<open>remove(t, s)\<close> deletes every occurrence of \<open>s\<close> from the
  terminal node's list, so that after two adds and one remove on a fresh vault
  \<^verbatim>\<open>findMatches(t)\<close> contains no occurrence of \<open>s\<close> and \<^verbatim>\<open>onTopicRemoved(t)\<close>
  has been invoked. \<^verbatim>\<open>remove\<close> looks for the handle with \<^verbatim>\<open>includes\<close> and deletes
  with the filter \<^verbatim>\<open>sub !== subscription\<close>. For the handle \<^verbatim>\<open>NaN\<close> the first finds
  it and the second keeps every entry: the three calls return, no diagnostic is logged,
  \<^verbatim>\<open>onTopicRemoved\<close> is not invoked and \<^verbatim>\<open>findMatches(t)\<close> still returns both
  occurrences. For any other handle the same three calls leave nothing and invoke
  \<^verbatim>\<open>onTopicRemoved\<close>.
\<close>

theorem remove_keeps_NaN:
  "(\<exists>v1 v2 v3.
      add ''t'' NaN (new_vault :: 's handle vault) = Normal v1 \<and>
      add ''t'' NaN v1 = Normal v2 \<and>
      remove ''t'' NaN v2 = Normal v3 \<and>
      findMatches ''t'' v3 = Inr [NaN, NaN] \<and>
      events v3 = [TopicAdded ''t'']) \<and>
   (\<exists>v1 v2 v3.
      add ''t'' (Value x) (new_vault :: 's handle vault) = Normal v1 \<and>
      add ''t'' (Value x) v1 = Normal v2 \<and>
      remove ''t'' (Value x) v2 = Normal v3 \<and>
      findMatches ''t'' v3 = Inr [] \<and>
      events v3 = [TopicAdded ''t'', TopicRemoved ''t''])"
  by (simp add: vault_eval)

end
